theory Spec2Isabelle
  imports Main
begin

section \<open>Text as Python sees it\<close>

text \<open>
  The script \<^verbatim>\<open>fix_daemon_logs.py\<close> works on Python \<^verbatim>\<open>str\<close> values, which are
  sequences of Unicode code points. A code point is modelled as a natural number and a
  string as a list of them, so that \<^verbatim>\<open>\s\<close> and \<^verbatim>\<open>str.strip()\<close> can be given
  their full Unicode meaning. \<open>py\<close> turns an ASCII literal into such a list.
\<close>

type_synonym pystr = "nat list"

abbreviation py :: "string \<Rightarrow> pystr" where
  "py s \<equiv> map of_char s"

text \<open>
  The characters for which \<^verbatim>\<open>str.isspace()\<close> holds. Both \<^verbatim>\<open>\s\<close> in a \<^verbatim>\<open>str\<close>
  pattern and \<^verbatim>\<open>str.strip()\<close> without argument use this set.
\<close>

definition isspace :: "nat \<Rightarrow> bool" where
  "isspace c \<longleftrightarrow>
     (9 \<le> c \<and> c \<le> 13) \<or> (28 \<le> c \<and> c \<le> 32) \<or> c = 133 \<or> c = 160 \<or> c = 5760
     \<or> (8192 \<le> c \<and> c \<le> 8202) \<or> c = 8232 \<or> c = 8233 \<or> c = 8239 \<or> c = 8287
     \<or> c = 12288"

text \<open>\<^verbatim>\<open>s.strip()\<close> and \<^verbatim>\<open>s.strip(chars)\<close>: both ends are trimmed.\<close>

definition strip_by :: "(nat \<Rightarrow> bool) \<Rightarrow> pystr \<Rightarrow> pystr" where
  "strip_by P s = rev (dropWhile P (rev (dropWhile P s)))"

definition strip :: "pystr \<Rightarrow> pystr" where
  "strip s = strip_by isspace s"

definition strip_chars :: "pystr \<Rightarrow> pystr \<Rightarrow> pystr" where
  "strip_chars cs s = strip_by (\<lambda>c. c \<in> set cs) s"

text \<open>\<^verbatim>\<open>sep.join(xs)\<close>.\<close>

fun join :: "pystr \<Rightarrow> pystr list \<Rightarrow> pystr" where
  "join sep [] = []"
| "join sep [x] = x"
| "join sep (x # y # ys) = x @ sep @ join sep (y # ys)"

text \<open>\<^verbatim>\<open>s.split(sep)\<close> for a one-character separator; the result is never empty.\<close>

fun split_on :: "nat \<Rightarrow> pystr \<Rightarrow> pystr list" where
  "split_on sep [] = [[]]"
| "split_on sep (c # cs) =
     (if c = sep then [] # split_on sep cs
      else (case split_on sep cs of [] \<Rightarrow> [[c]] | x # xs \<Rightarrow> (c # x) # xs))"

text \<open>Exceptions of the script are values; list indexing is the only place that can raise.\<close>

datatype py_error = IndexError

definition py_index :: "'a list \<Rightarrow> nat \<Rightarrow> py_error + 'a" where
  "py_index xs i = (if i < length xs then Inr (xs ! i) else Inl IndexError)"

section \<open>The matcher of Python's re module\<close>

text \<open>
  A backtracking matcher for the fragment of regular expressions the pattern uses.
  Repetition is over a single character class, as everywhere in the pattern. The matcher
  is written in continuation-passing style: the continuation is the rest of the pattern,
  and a failure of the continuation makes the matcher try its next alternative, in the
  order in which \<^verbatim>\<open>re\<close> tries them (greedy: longest first; lazy: shortest first;
  alternation and the optional group: left to right).
\<close>

datatype regex =
    Bol
  | Eol
  | Str pystr
  | Star "nat \<Rightarrow> bool"
  | Plus "nat \<Rightarrow> bool"
  | PlusLazy "nat \<Rightarrow> bool"
  | Seq regex regex
  | Alt regex regex
  | Opt regex
  | Grp nat regex

type_synonym groups = "nat \<rightharpoonup> pystr"

fun star_greedy :: "(nat \<Rightarrow> bool) \<Rightarrow> pystr \<Rightarrow> (pystr \<Rightarrow> 'a option) \<Rightarrow> 'a option" where
  "star_greedy P [] k = k []"
| "star_greedy P (c # cs) k =
     (if P c then (case star_greedy P cs k of Some r \<Rightarrow> Some r | None \<Rightarrow> k (c # cs))
      else k (c # cs))"

fun plus_lazy :: "(nat \<Rightarrow> bool) \<Rightarrow> pystr \<Rightarrow> (pystr \<Rightarrow> 'a option) \<Rightarrow> 'a option" where
  "plus_lazy P [] k = None"
| "plus_lazy P (c # cs) k =
     (if P c then (case k cs of Some r \<Rightarrow> Some r | None \<Rightarrow> plus_lazy P cs k) else None)"

text \<open>
  \<open>rmatch inp r s g k\<close>: match \<open>r\<close> at the suffix \<open>s\<close> of the input \<open>inp\<close> with the
  groups \<open>g\<close> captured so far. \<^verbatim>\<open>^\<close> holds at the start of the input only, \<^verbatim>\<open>$\<close>
  at its end or before a newline that ends it (no flag is given to \<^verbatim>\<open>re.match\<close>).
\<close>

fun rmatch :: "pystr \<Rightarrow> regex \<Rightarrow> pystr \<Rightarrow> groups \<Rightarrow> (pystr \<Rightarrow> groups \<Rightarrow> groups option)
    \<Rightarrow> groups option" where
  "rmatch inp Bol s g k = (if length s = length inp then k s g else None)"
| "rmatch inp Eol s g k = (if s = [] \<or> s = [10] then k s g else None)"
| "rmatch inp (Str t) s g k =
     (if take (length t) s = t then k (drop (length t) s) g else None)"
| "rmatch inp (Star P) s g k = star_greedy P s (\<lambda>s'. k s' g)"
| "rmatch inp (Plus P) s g k =
     (case s of [] \<Rightarrow> None
      | c # cs \<Rightarrow> if P c then star_greedy P cs (\<lambda>s'. k s' g) else None)"
| "rmatch inp (PlusLazy P) s g k = plus_lazy P s (\<lambda>s'. k s' g)"
| "rmatch inp (Seq a b) s g k = rmatch inp a s g (\<lambda>s' g'. rmatch inp b s' g' k)"
| "rmatch inp (Alt a b) s g k =
     (case rmatch inp a s g k of Some r \<Rightarrow> Some r | None \<Rightarrow> rmatch inp b s g k)"
| "rmatch inp (Opt a) s g k =
     (case rmatch inp a s g k of Some r \<Rightarrow> Some r | None \<Rightarrow> k s g)"
| "rmatch inp (Grp n a) s g k =
     rmatch inp a s g (\<lambda>s' g'. k s' (g'(n \<mapsto> take (length s - length s') s)))"

text \<open>\<^verbatim>\<open>re.match(pattern, line)\<close>: anchored at the start, free at the end.\<close>

definition re_match :: "regex \<Rightarrow> pystr \<Rightarrow> groups option" where
  "re_match r line = rmatch line r line Map.empty (\<lambda>s g. Some g)"

section \<open>The script\<close>

text \<open>
  The pattern of \<^verbatim>\<open>fix_file\<close>:
  \<^verbatim>\<open>^(\s*)d\.logger\.(Info|Debug|Error|Warn)\("([^"]+)"(?:,\s*(.+?))?\)$\<close>
\<close>

definition pattern :: regex where
  \<open>pattern =
     Seq Bol
    (Seq (Grp 1 (Star isspace))
    (Seq (Str (py ''d.logger.''))
    (Seq (Grp 2 (Alt (Str (py ''Info'')) (Alt (Str (py ''Debug''))
                (Alt (Str (py ''Error'')) (Str (py ''Warn''))))))
    (Seq (Str (py ''("''))
    (Seq (Grp 3 (Plus (\<lambda>c. c \<noteq> 34)))
    (Seq (Str (py ''"''))
    (Seq (Opt (Seq (Str (py '','')) (Seq (Star isspace) (Grp 4 (PlusLazy (\<lambda>c. c \<noteq> 10))))))
    (Seq (Str (py '')''))
         Eol))))))))\<close>

text \<open>
  The match object, as \<^verbatim>\<open>convert_log_call\<close> reads it: groups 1 to 3 always take part
  in a match, group 4 is \<^verbatim>\<open>None\<close> when the optional part did not.
\<close>

record log_match =
  indent :: pystr
  level :: pystr
  message :: pystr
  raw_args :: "pystr option"

definition match_line :: "pystr \<Rightarrow> log_match option" where
  "match_line line =
     (case re_match pattern line of
        None \<Rightarrow> None
      | Some g \<Rightarrow>
          (case (g 1, g 2, g 3) of
             (Some i, Some l, Some m) \<Rightarrow>
               Some \<lparr>indent = i, level = l, message = m, raw_args = g 4\<rparr>
           | _ \<Rightarrow> None))"

subsection \<open>The splitter: the for loop of convert_log_call\<close>

record split_state =
  parts :: "pystr list"
  current :: pystr
  paren_depth :: int
  in_quotes :: bool
  quote_char :: "nat option"

definition split_init :: split_state where
  "split_init = \<lparr>parts = [], current = [], paren_depth = 0, in_quotes = False,
     quote_char = None\<rparr>"

text \<open>One round of the loop; the \<^verbatim>\<open>continue\<close> of the comma branch skips the append.\<close>

definition split_step :: "split_state \<Rightarrow> nat \<Rightarrow> split_state" where
  "split_step st char =
     (if (char = 34 \<or> char = 39) \<and> \<not> in_quotes st then
        st\<lparr>in_quotes := True, quote_char := Some char, current := current st @ [char]\<rparr>
      else if Some char = quote_char st \<and> in_quotes st then
        st\<lparr>in_quotes := False, quote_char := None, current := current st @ [char]\<rparr>
      else if \<not> in_quotes st then
        (if char = 40 then
           st\<lparr>paren_depth := paren_depth st + 1, current := current st @ [char]\<rparr>
         else if char = 41 then
           st\<lparr>paren_depth := paren_depth st - 1, current := current st @ [char]\<rparr>
         else if char = 44 \<and> paren_depth st = 0 then
           st\<lparr>parts := parts st @ [strip (current st)], current := []\<rparr>
         else st\<lparr>current := current st @ [char]\<rparr>)
      else st\<lparr>current := current st @ [char]\<rparr>)"

definition scan :: "split_state \<Rightarrow> pystr \<Rightarrow> split_state" where
  "scan st args = foldl split_step st args"

text \<open>After the loop the rest is flushed when it is not blank.\<close>

definition split_args :: "pystr \<Rightarrow> pystr list" where
  "split_args args =
     (let st = scan split_init args
      in if strip (current st) \<noteq> [] then parts st @ [strip (current st)] else parts st)"

subsection \<open>The field builder: the while loop of convert_log_call\<close>

definition make_field :: "pystr \<Rightarrow> pystr \<Rightarrow> pystr" where
  \<open>make_field key val = py ''logging.Field{Key: "'' @ key @ py ''", Value: '' @ val @ py ''}''\<close>

function build_fields :: "pystr list \<Rightarrow> nat \<Rightarrow> pystr list \<Rightarrow> py_error + pystr list" where
  "build_fields ps i flds =
     (if i < length ps then
        (if i + 1 < length ps then
           (case py_index ps i of
              Inl e \<Rightarrow> Inl e
            | Inr p \<Rightarrow>
                (case py_index ps (i + 1) of
                   Inl e \<Rightarrow> Inl e
                 | Inr val \<Rightarrow>
                     build_fields ps (i + 2)
                       (flds @ [make_field (strip_chars [39] (strip_chars [34] p)) val])))
         else build_fields ps (i + 1) flds)
      else Inr flds)"
  by pat_completeness auto
termination
  by (relation "measure (\<lambda>(ps, i, flds). length ps - i)") auto

subsection \<open>convert_log_call and fix_file\<close>

text \<open>The last part of \<^verbatim>\<open>convert_log_call\<close>, under its comment "Build the new call".\<close>

definition new_call :: "log_match \<Rightarrow> pystr list \<Rightarrow> pystr" where
  \<open>new_call m flds =
     (if flds \<noteq> [] then
        (let fields_str = py '','' @ [10] @ indent m @ [9]
               @ join (py '','' @ [10] @ indent m @ [9]) flds
               @ py '','' @ [10] @ indent m
         in indent m @ py ''d.logger.'' @ level m @ py ''(ctx, "'' @ message m
            @ py ''"'' @ fields_str @ py '')'')
      else
        indent m @ py ''d.logger.'' @ level m @ py ''(ctx, "'' @ message m @ py ''")'')\<close>

definition convert_log_call :: "log_match \<Rightarrow> py_error + pystr" where
  "convert_log_call m =
     (let args = (case raw_args m of None \<Rightarrow> [] | Some a \<Rightarrow> if a \<noteq> [] then a else [])
      in case (if args \<noteq> [] then build_fields (split_args args) 0 [] else Inr []) of
           Inl e \<Rightarrow> Inl e
         | Inr flds \<Rightarrow> Inr (new_call m flds))"

text \<open>The body of the loop over the lines of the file.\<close>

definition rewrite_line :: "pystr \<Rightarrow> py_error + pystr" where
  "rewrite_line line =
     (case match_line line of Some m \<Rightarrow> convert_log_call m | None \<Rightarrow> Inr line)"

fun fix_lines :: "pystr list \<Rightarrow> pystr list \<Rightarrow> py_error + pystr list" where
  "fix_lines [] new_lines = Inr new_lines"
| "fix_lines (line # lines) new_lines =
     (case rewrite_line line of
        Inl e \<Rightarrow> Inl e
      | Inr new \<Rightarrow> fix_lines lines (new_lines @ [new]))"

text \<open>
  \<^verbatim>\<open>fix_file\<close> between reading the file and writing it: from the content read to the
  content written.
\<close>

definition fix_content :: "pystr \<Rightarrow> py_error + pystr" where
  "fix_content content =
     (case fix_lines (split_on 10 content) [] of
        Inl e \<Rightarrow> Inl e
      | Inr new_lines \<Rightarrow> Inr (join [10] new_lines))"

section \<open>A grammar for well-nested argument text\<close>

text \<open>
  What the specification calls a parenthesized sub-expression, stated without reference to
  the splitter: plain characters, quoted literals that end at the next quote character of
  the same kind, and parenthesized groups of well-nested text.
\<close>

inductive nested :: "pystr \<Rightarrow> bool" where
  empty: "nested []"
| plain: "c \<noteq> 34 \<Longrightarrow> c \<noteq> 39 \<Longrightarrow> c \<noteq> 40 \<Longrightarrow> c \<noteq> 41 \<Longrightarrow> nested w \<Longrightarrow> nested (c # w)"
| quoted: "q = 34 \<or> q = 39 \<Longrightarrow> q \<notin> set u \<Longrightarrow> nested w \<Longrightarrow> nested (q # u @ q # w)"
| group: "nested u \<Longrightarrow> nested w \<Longrightarrow> nested (40 # u @ 41 # w)"

code_pred nested .

section \<open>The pattern in parts\<close>

text \<open>
  The four level names, and the pattern cut in two places, so that the proofs can follow
  the matcher one piece at a time: \<open>pattern_body\<close> starts after the indentation,
  \<open>pattern_tail\<close> after the closing quote of the message.
\<close>

definition level_names :: "pystr list" where
  "level_names = [py ''Info'', py ''Debug'', py ''Error'', py ''Warn'']"

definition pattern_tail :: regex where
  \<open>pattern_tail =
     Seq (Opt (Seq (Str (py '','')) (Seq (Star isspace) (Grp 4 (PlusLazy (\<lambda>c. c \<noteq> 10))))))
    (Seq (Str (py '')''))
         Eol)\<close>

definition pattern_body :: regex where
  \<open>pattern_body =
     Seq (Str (py ''d.logger.''))
    (Seq (Grp 2 (Alt (Str (py ''Info'')) (Alt (Str (py ''Debug''))
                (Alt (Str (py ''Error'')) (Str (py ''Warn''))))))
    (Seq (Str (py ''("''))
    (Seq (Grp 3 (Plus (\<lambda>c. c \<noteq> 34)))
    (Seq (Str (py ''"''))
     pattern_tail))))\<close>

text \<open>
  The lines of a rewritten call that has fields, as the specification lists them: the
  opening line, one line for each field, the closing line.
\<close>

definition call_lines :: "log_match \<Rightarrow> pystr list \<Rightarrow> pystr list" where
  \<open>call_lines m flds =
     (indent m @ py ''d.logger.'' @ level m @ py ''(ctx, "'' @ message m @ py ''",'')
     # map (\<lambda>f. indent m @ 9 # f @ py '','') flds @ [indent m @ py '')'']\<close>

section \<open>Properties of the splitter\<close>

lemma scan_Nil: "scan st [] = st"
  by (simp add: scan_def)

lemma scan_Cons: "scan st (c # cs) = scan (split_step st c) cs"
  by (simp add: scan_def)

lemma scan_append: "scan st (a @ b) = scan (scan st a) b"
  by (simp add: scan_def)

lemma scan_in_quote:
  "in_quotes st \<Longrightarrow> quote_char st = Some q \<Longrightarrow> q \<notin> set mid \<Longrightarrow>
   scan st mid = st\<lparr>current := current st @ mid\<rparr>"
proof (induction mid arbitrary: st)
  case Nil
  then show ?case by (simp add: scan_Nil)
next
  case (Cons c mid)
  from Cons.prems have step: "split_step st c = st\<lparr>current := current st @ [c]\<rparr>"
    by (auto simp: split_step_def)
  show ?case
    using Cons.IH[of "st\<lparr>current := current st @ [c]\<rparr>"] Cons.prems
    by (simp add: scan_Cons step)
qed

lemma scan_literal:
  assumes "\<not> in_quotes st" "q = 34 \<or> q = 39" "q \<notin> set mid"
  shows "scan st (q # mid) = st\<lparr>in_quotes := True, quote_char := Some q, current := current st @ q # mid\<rparr>"
    and "scan st (q # mid @ [q]) = st\<lparr>in_quotes := False, quote_char := None, current := current st @ q # mid @ [q]\<rparr>"
proof -
  let ?s1 = "st\<lparr>in_quotes := True, quote_char := Some q, current := current st @ [q]\<rparr>"
  have s1: "split_step st q = ?s1" using assms by (auto simp: split_step_def)
  have s2: "scan ?s1 mid = ?s1\<lparr>current := current ?s1 @ mid\<rparr>"
    by (rule scan_in_quote) (use assms in simp_all)
  show a: "scan st (q # mid) = st\<lparr>in_quotes := True, quote_char := Some q, current := current st @ q # mid\<rparr>"
    by (simp add: scan_Cons s1 s2)
  have "scan st (q # mid @ [q]) = scan (scan st (q # mid)) [q]"
    using scan_append[of st "q # mid" "[q]"] by simp
  also have "\<dots> = split_step (scan st (q # mid)) q"
    by (simp add: scan_def)
  also have "\<dots> = st\<lparr>in_quotes := False, quote_char := None, current := current st @ q # mid @ [q]\<rparr>"
    unfolding a using assms(2) by (auto simp: split_step_def)
  finally show "scan st (q # mid @ [q]) = st\<lparr>in_quotes := False, quote_char := None, current := current st @ q # mid @ [q]\<rparr>" .
qed

lemma scan_nested:
  "nested w \<Longrightarrow> \<not> in_quotes st \<Longrightarrow> 0 < paren_depth st \<Longrightarrow>
   parts (scan st w) = parts st \<and> current (scan st w) = current st @ w
   \<and> paren_depth (scan st w) = paren_depth st \<and> \<not> in_quotes (scan st w)"
proof (induction w arbitrary: st rule: nested.induct)
  case empty
  then show ?case by (simp add: scan_Nil)
next
  case (plain c w)
  have step: "split_step st c = st\<lparr>current := current st @ [c]\<rparr>"
    using plain.hyps plain.prems by (auto simp: split_step_def)
  show ?case
    using plain.IH[of "st\<lparr>current := current st @ [c]\<rparr>"] plain.prems
    by (simp add: scan_Cons step)
next
  case (quoted q u w)
  let ?s = "st\<lparr>in_quotes := False, quote_char := None, current := current st @ q # u @ [q]\<rparr>"
  have "scan st (q # u @ q # w) = scan (scan st (q # u @ [q])) w"
    using scan_append[of st "q # u @ [q]" w] by simp
  also have "\<dots> = scan ?s w"
    using scan_literal(2)[OF quoted.prems(1) quoted.hyps(1,2)] by simp
  finally show ?case
    using quoted.IH[of ?s] quoted.prems by simp
next
  case (group u w)
  let ?s1 = "st\<lparr>paren_depth := paren_depth st + 1, current := current st @ [40]\<rparr>"
  have s1: "split_step st 40 = ?s1" using group.prems by (simp add: split_step_def)
  have u: "parts (scan ?s1 u) = parts st" "current (scan ?s1 u) = current st @ 40 # u"
    "paren_depth (scan ?s1 u) = paren_depth st + 1" "\<not> in_quotes (scan ?s1 u)"
    using group.IH(1)[of ?s1] group.prems by simp_all
  let ?s2 = "(scan ?s1 u)\<lparr>paren_depth := paren_depth (scan ?s1 u) - 1, current := current (scan ?s1 u) @ [41]\<rparr>"
  have s2: "split_step (scan ?s1 u) 41 = ?s2" using u(4) by (simp add: split_step_def)
  have "scan st (40 # u @ 41 # w) = scan (split_step (scan (split_step st 40) u) 41) w"
    by (simp add: scan_Cons scan_append)
  then have eq: "scan st (40 # u @ 41 # w) = scan ?s2 w" by (simp only: s1 s2)
  show ?case
    unfolding eq using group.IH(2)[of ?s2] u group.prems by simp
qed

lemma scan_group:
  assumes "nested mid" "\<not> in_quotes st" "0 \<le> paren_depth st"
  shows "parts (scan st (40 # mid @ [41])) = parts st \<and>
         current (scan st (40 # mid @ [41])) = current st @ 40 # mid @ [41] \<and>
         paren_depth (scan st (40 # mid @ [41])) = paren_depth st \<and>
         \<not> in_quotes (scan st (40 # mid @ [41]))"
proof -
  let ?s1 = "st\<lparr>paren_depth := paren_depth st + 1, current := current st @ [40]\<rparr>"
  have s1: "split_step st 40 = ?s1" using assms by (simp add: split_step_def)
  have u: "parts (scan ?s1 mid) = parts st" "current (scan ?s1 mid) = current st @ 40 # mid"
    "paren_depth (scan ?s1 mid) = paren_depth st + 1" "\<not> in_quotes (scan ?s1 mid)"
    using scan_nested[OF assms(1), of ?s1] assms by simp_all
  let ?s2 = "(scan ?s1 mid)\<lparr>paren_depth := paren_depth (scan ?s1 mid) - 1,
     current := current (scan ?s1 mid) @ [41]\<rparr>"
  have s2: "split_step (scan ?s1 mid) 41 = ?s2" using u(4) by (simp add: split_step_def)
  have "scan st (40 # mid @ [41]) = split_step (scan (split_step st 40) mid) 41"
    by (simp add: scan_Cons scan_append scan_Nil)
  then have eq: "scan st (40 # mid @ [41]) = ?s2" by (simp only: s1 s2)
  show ?thesis unfolding eq using u by simp
qed

lemma strip_by_keep:
  assumes "\<not> P a" "\<not> P b"
  shows "strip_by P (a # w @ [b]) = a # w @ [b]"
  using assms by (simp add: strip_by_def)

section \<open>Properties of the field builder\<close>

declare build_fields.simps [simp del]

lemma build_fields_acc:
  "\<exists>fs. build_fields ps i acc = Inr (acc @ fs) \<and> length fs = (length ps - i) div 2
     \<and> (\<forall>j<length fs. fs ! j =
           make_field (strip_chars [39] (strip_chars [34] (ps ! (i + 2 * j)))) (ps ! (i + 2 * j + 1)))"
proof (induction ps i acc rule: build_fields.induct)
  case (1 ps i flds)
  show ?case
  proof (cases "i + 1 < length ps")
    case True
    let ?f = "make_field (strip_chars [39] (strip_chars [34] (ps ! i))) (ps ! (i + 1))"
    from True have pi: "py_index ps i = Inr (ps ! i)" "py_index ps (i + 1) = Inr (ps ! (i + 1))"
      by (simp_all add: py_index_def)
    from "1.IH"(1)[OF _ True pi(1) pi(2)] True
    obtain fs where fs: "build_fields ps (i + 2) (flds @ [?f]) = Inr ((flds @ [?f]) @ fs)"
      "length fs = (length ps - (i + 2)) div 2"
      "\<forall>j<length fs. fs ! j =
           make_field (strip_chars [39] (strip_chars [34] (ps ! (i + 2 + 2 * j)))) (ps ! (i + 2 + 2 * j + 1))"
      by auto
    have eq: "build_fields ps i flds = Inr (flds @ (?f # fs))"
      using True pi fs(1) by (subst build_fields.simps) simp
    have len: "length (?f # fs) = (length ps - i) div 2"
      using True fs(2) by simp
    have nth: "\<forall>j<length (?f # fs). (?f # fs) ! j =
           make_field (strip_chars [39] (strip_chars [34] (ps ! (i + 2 * j)))) (ps ! (i + 2 * j + 1))"
    proof (intro allI impI)
      fix j assume "j < length (?f # fs)"
      then show "(?f # fs) ! j =
           make_field (strip_chars [39] (strip_chars [34] (ps ! (i + 2 * j)))) (ps ! (i + 2 * j + 1))"
        using fs(3) by (cases j) (simp_all add: add.assoc)
    qed
    from eq len nth show ?thesis by blast
  next
    case False
    show ?thesis
    proof (cases "i < length ps")
      case True
      with False have l: "length ps = i + 1" by simp
      from "1.IH"(2)[OF True False] obtain fs where
        fs: "build_fields ps (i + 1) flds = Inr (flds @ fs)" "length fs = (length ps - (i + 1)) div 2"
        by auto
      from fs(2) l have "fs = []" by simp
      then show ?thesis using True False fs(1) l by (subst build_fields.simps) simp
    next
      case False
      then show ?thesis by (subst build_fields.simps) simp
    qed
  qed
qed


lemma build_fields_total:
  "\<exists>flds. build_fields ps 0 [] = Inr flds"
  using build_fields_acc[of ps 0 "[]"] by auto

lemma convert_log_call_Inr:
  "\<exists>flds. convert_log_call m = Inr (new_call m flds)"
proof (cases "raw_args m")
  case None
  then have "convert_log_call m = Inr (new_call m [])"
    by (simp add: convert_log_call_def)
  then show ?thesis by blast
next
  case (Some a)
  show ?thesis
  proof (cases "a = []")
    case True
    with Some have "convert_log_call m = Inr (new_call m [])"
      by (simp add: convert_log_call_def)
    then show ?thesis by blast
  next
    case False
    obtain flds where "build_fields (split_args a) 0 [] = Inr flds"
      using build_fields_total by blast
    with Some False have "convert_log_call m = Inr (new_call m flds)"
      by (simp add: convert_log_call_def)
    then show ?thesis by blast
  qed
qed

section \<open>Properties of the matcher\<close>

lemma pattern_unfold: "pattern = Seq Bol (Seq (Grp 1 (Star isspace)) pattern_body)"
  by (simp add: pattern_def pattern_body_def pattern_tail_def)

lemma star_greedy_skip:
  "(\<And>c cs. P c \<Longrightarrow> k (c # cs) = None) \<Longrightarrow> star_greedy P s k = k (dropWhile P s)"
  by (induction s) (auto split: option.splits)

lemma star_greedy_sound:
  "star_greedy P s k = Some r \<Longrightarrow>
   \<exists>n\<le>length s. (\<forall>c\<in>set (take n s). P c) \<and> k (drop n s) = Some r"
proof (induction s)
  case Nil
  then show ?case by simp
next
  case (Cons c cs)
  show ?case
  proof (cases "P c \<and> star_greedy P cs k = Some r")
    case True
    with Cons.IH obtain n where "n \<le> length cs" "\<forall>c\<in>set (take n cs). P c" "k (drop n cs) = Some r"
      by blast
    with True show ?thesis by (intro exI[of _ "Suc n"]) simp
  next
    case False
    with Cons.prems have "k (c # cs) = Some r" by (auto split: if_splits option.splits)
    then show ?thesis by (intro exI[of _ 0]) simp
  qed
qed

lemma plus_lazy_sound:
  "plus_lazy P s k = Some r \<Longrightarrow>
   \<exists>n. 0 < n \<and> n \<le> length s \<and> (\<forall>c\<in>set (take n s). P c) \<and> k (drop n s) = Some r"
proof (induction s)
  case Nil
  then show ?case by simp
next
  case (Cons c cs)
  then have pc: "P c" by (auto split: if_splits)
  show ?case
  proof (cases "k cs = Some r")
    case True
    with pc show ?thesis by (intro exI[of _ "Suc 0"]) simp
  next
    case False
    with Cons.prems pc have "plus_lazy P cs k = Some r" by (auto split: option.splits)
    with Cons.IH obtain n where "0 < n" "n \<le> length cs" "\<forall>c\<in>set (take n cs). P c" "k (drop n cs) = Some r"
      by blast
    with pc show ?thesis by (intro exI[of _ "Suc n"]) simp
  qed
qed

lemma take_length_dropWhile: "take (length s - length (dropWhile P s)) s = takeWhile P s"
proof -
  have "length s - length (dropWhile P s) = length (takeWhile P s)"
    using length_append[of "takeWhile P s" "dropWhile P s"] by simp
  then show ?thesis by (simp only: takeWhile_eq_take[symmetric])
qed

lemma rmatch_Str_D:
  "rmatch inp (Str t) s g k = Some r \<Longrightarrow> \<exists>s'. s = t @ s' \<and> k s' g = Some r"
proof -
  assume a: "rmatch inp (Str t) s g k = Some r"
  then have "take (length t) s = t" "k (drop (length t) s) g = Some r"
    by (auto split: if_splits)
  then have "s = t @ drop (length t) s \<and> k (drop (length t) s) g = Some r"
    by (metis append_take_drop_id)
  then show ?thesis by blast
qed

lemma rmatch_Grp_Star_D:
  assumes "rmatch inp (Grp n (Star P)) s g k = Some r"
    and "\<And>c cs g'. P c \<Longrightarrow> k (c # cs) g' = None"
  shows "k (dropWhile P s) (g(n \<mapsto> takeWhile P s)) = Some r"
proof -
  have "star_greedy P s (\<lambda>s'. k s' (g(n \<mapsto> take (length s - length s') s)))
      = k (dropWhile P s) (g(n \<mapsto> take (length s - length (dropWhile P s)) s))"
    by (rule star_greedy_skip) (simp add: assms(2))
  with assms(1) show ?thesis by (simp add: take_length_dropWhile)
qed

lemma rmatch_Grp_Plus_D:
  assumes "rmatch inp (Grp n (Plus P)) s g k = Some r"
    and "\<And>c cs g'. P c \<Longrightarrow> k (c # cs) g' = None"
  shows "takeWhile P s \<noteq> [] \<and> k (dropWhile P s) (g(n \<mapsto> takeWhile P s)) = Some r"
proof (cases s)
  case Nil
  with assms(1) show ?thesis by simp
next
  case (Cons c cs)
  with assms(1) have pc: "P c"
    and a: "star_greedy P cs (\<lambda>s'. k s' (g(n \<mapsto> take (length s - length s') s))) = Some r"
    by (auto split: if_splits)
  have "star_greedy P cs (\<lambda>s'. k s' (g(n \<mapsto> take (length s - length s') s)))
      = k (dropWhile P cs) (g(n \<mapsto> take (length s - length (dropWhile P cs)) s))"
    by (rule star_greedy_skip) (simp add: assms(2))
  moreover have "dropWhile P cs = dropWhile P s" "takeWhile P s \<noteq> []"
    using Cons pc by simp_all
  ultimately show ?thesis using a by (simp add: take_length_dropWhile)
qed

lemma levels_D:
  assumes "rmatch inp (Grp n (Alt (Str a) (Alt (Str b) (Alt (Str c) (Str d))))) s g k = Some r"
  shows "\<exists>l s'. l \<in> {a, b, c, d} \<and> s = l @ s' \<and> k s' (g(n \<mapsto> l)) = Some r"
proof -
  have *: "\<exists>s'. s = t @ s' \<and> k s' (g(n \<mapsto> t)) = Some r"
    if "rmatch inp (Str t) s g (\<lambda>s' g'. k s' (g'(n \<mapsto> take (length s - length s') s))) = Some r" for t
  proof -
    from rmatch_Str_D[OF that] obtain s' where "s = t @ s'"
      "k s' (g(n \<mapsto> take (length s - length s') s)) = Some r" by blast
    then show ?thesis by auto
  qed
  from assms consider
      "rmatch inp (Str a) s g (\<lambda>s' g'. k s' (g'(n \<mapsto> take (length s - length s') s))) = Some r"
    | "rmatch inp (Str b) s g (\<lambda>s' g'. k s' (g'(n \<mapsto> take (length s - length s') s))) = Some r"
    | "rmatch inp (Str c) s g (\<lambda>s' g'. k s' (g'(n \<mapsto> take (length s - length s') s))) = Some r"
    | "rmatch inp (Str d) s g (\<lambda>s' g'. k s' (g'(n \<mapsto> take (length s - length s') s))) = Some r"
    by (simp only: rmatch.simps(8,10) split: option.splits)
  then show ?thesis
    by cases (use * in blast)+
qed

lemma tail_sound:
  assumes "rmatch inp pattern_tail s g (\<lambda>s g. Some g) = Some r"
  shows "(r = g \<and> (s = [41] \<or> s = [41, 10]))
       \<or> (\<exists>ws a tl. s = 44 # ws @ a @ 41 # tl \<and> (\<forall>c\<in>set ws. isspace c) \<and> a \<noteq> []
             \<and> 10 \<notin> set a \<and> (tl = [] \<or> tl = [10]) \<and> r = g(4 \<mapsto> a))"
proof -
  define F where "F = (\<lambda>(s::pystr) (g::groups). if s = [41] \<or> s = [41, 10] then Some g else None)"
  have F: "rmatch inp (Seq (Str (py '')'')) Eol) s g (\<lambda>s g. Some g) = F s g" for s g
    by (cases s) (auto simp: F_def)
  define A where "A = Seq (Str (py '','')) (Seq (Star isspace) (Grp 4 (PlusLazy (\<lambda>c. c \<noteq> 10))))"
  have Feq: "(\<lambda>s' g'. rmatch inp (Seq (Str (py '')'')) Eol) s' g' (\<lambda>s g. Some g)) = F"
    by (intro ext) (rule F)
  have "rmatch inp pattern_tail s g (\<lambda>s g. Some g)
      = rmatch inp (Opt A) s g (\<lambda>s' g'. rmatch inp (Seq (Str (py '')'')) Eol) s' g' (\<lambda>s g. Some g))"
    unfolding pattern_tail_def A_def[symmetric] by (rule rmatch.simps(7))
  then have unf: "rmatch inp pattern_tail s g (\<lambda>s g. Some g)
      = (case rmatch inp A s g F of Some r \<Rightarrow> Some r | None \<Rightarrow> F s g)"
    unfolding Feq by (simp only: rmatch.simps(9))
  show ?thesis
  proof (cases "rmatch inp A s g F")
    case None
    with assms unf have "F s g = Some r" by simp
    then show ?thesis by (auto simp: F_def split: if_splits)
  next
    case (Some r')
    with assms unf have r': "r' = r" by simp
    from Some have "rmatch inp (Str [44]) s g
        (\<lambda>s1 g1. star_greedy isspace s1 (\<lambda>s2. plus_lazy (\<lambda>c. c \<noteq> 10) s2
           (\<lambda>s3. F s3 (g1(4 \<mapsto> take (length s2 - length s3) s2))))) = Some r"
      unfolding A_def r' by simp
    from rmatch_Str_D[OF this] obtain s1 where s1: "s = [44] @ s1"
      "star_greedy isspace s1 (\<lambda>s2. plus_lazy (\<lambda>c. c \<noteq> 10) s2
           (\<lambda>s3. F s3 (g(4 \<mapsto> take (length s2 - length s3) s2)))) = Some r" by blast
    from star_greedy_sound[OF s1(2)] obtain n where n: "n \<le> length s1"
      "\<forall>c\<in>set (take n s1). isspace c"
      "plus_lazy (\<lambda>c. c \<noteq> 10) (drop n s1)
           (\<lambda>s3. F s3 (g(4 \<mapsto> take (length (drop n s1) - length s3) (drop n s1)))) = Some r"
      by blast
    from plus_lazy_sound[OF n(3)] obtain m where m: "0 < m" "m \<le> length (drop n s1)"
      "\<forall>c\<in>set (take m (drop n s1)). c \<noteq> 10"
      "F (drop m (drop n s1))
         (g(4 \<mapsto> take (length (drop n s1) - length (drop m (drop n s1))) (drop n s1))) = Some r"
      by blast
    let ?ws = "take n s1" and ?a = "take m (drop n s1)" and ?t = "drop m (drop n s1)"
    have dec: "s1 = ?ws @ ?a @ ?t" by (simp only: append_take_drop_id)
    have "length (drop n s1) - length ?t = m" using m(2) by simp
    with m(4) have fin: "?t = [41] \<or> ?t = [41, 10]" and r: "r = g(4 \<mapsto> ?a)"
      by (auto simp: F_def split: if_splits)
    from fin obtain tl where tl: "?t = 41 # tl" "tl = [] \<or> tl = [10]" by auto
    have "s = 44 # ?ws @ ?a @ 41 # tl" using s1(1) dec tl(1) by (metis append_Cons append_Nil)
    moreover have "?a \<noteq> []" using m(1,2) by auto
    moreover have "10 \<notin> set ?a" using m(3) by blast
    ultimately show ?thesis using n(2) tl(2) r by blast
  qed
qed

lemma Seq_Str_fail:
  "c \<noteq> a \<Longrightarrow> rmatch inp (Seq (Str (a # t)) R) (c # cs) g k = None"
  by simp

lemma body_fail_space:
  "isspace c \<Longrightarrow> rmatch inp pattern_body (c # cs) g k = None"
proof -
  assume "isspace c"
  then have c: "c \<noteq> 100" by (auto simp: isspace_def)
  have h: "py ''d.logger.'' = 100 # py ''.logger.''" by simp
  show ?thesis unfolding pattern_body_def h by (rule Seq_Str_fail) (rule c)
qed

lemma body_sound:
  assumes "rmatch inp pattern_body s g (\<lambda>s g. Some g) = Some r"
  shows \<open>\<exists>lvl msg rest. lvl \<in> set level_names \<and> msg \<noteq> [] \<and> 34 \<notin> set msg
      \<and> s = py ''d.logger.'' @ lvl @ py ''("'' @ msg @ 34 # rest
      \<and> ((r = g(2 \<mapsto> lvl, 3 \<mapsto> msg) \<and> (rest = [41] \<or> rest = [41, 10]))
          \<or> (\<exists>ws a tl. rest = 44 # ws @ a @ 41 # tl \<and> (\<forall>c\<in>set ws. isspace c) \<and> a \<noteq> []
                \<and> 10 \<notin> set a \<and> (tl = [] \<or> tl = [10]) \<and> r = g(2 \<mapsto> lvl, 3 \<mapsto> msg, 4 \<mapsto> a)))\<close>
proof -
  let ?K = "\<lambda>(s::pystr) (g::groups). Some g"
  define R7 where \<open>R7 = Seq (Str (py ''"'')) pattern_tail\<close>
  define R6 where \<open>R6 = Seq (Grp 3 (Plus (\<lambda>c. c \<noteq> 34))) R7\<close>
  define R5 where \<open>R5 = Seq (Str (py ''("'')) R6\<close>
  define R4 where \<open>R4 = Seq (Grp 2 (Alt (Str (py ''Info'')) (Alt (Str (py ''Debug''))
                (Alt (Str (py ''Error'')) (Str (py ''Warn'')))))) R5\<close>
  have body: \<open>pattern_body = Seq (Str (py ''d.logger.'')) R4\<close>
    by (simp add: pattern_body_def R4_def R5_def R6_def R7_def)
  from assms have "rmatch inp (Str (py ''d.logger.'')) s g (\<lambda>s' g'. rmatch inp R4 s' g' ?K) = Some r"
    unfolding body by (simp only: rmatch.simps(7))
  from rmatch_Str_D[OF this] obtain s1 where s1: "s = py ''d.logger.'' @ s1"
    "rmatch inp R4 s1 g ?K = Some r" by blast
  from s1(2) have "rmatch inp (Grp 2 (Alt (Str (py ''Info'')) (Alt (Str (py ''Debug''))
                (Alt (Str (py ''Error'')) (Str (py ''Warn'')))))) s1 g
                (\<lambda>s' g'. rmatch inp R5 s' g' ?K) = Some r"
    unfolding R4_def by (simp only: rmatch.simps(7))
  from levels_D[OF this] obtain lvl s2 where lvl: "lvl \<in> set level_names" "s1 = lvl @ s2"
    "rmatch inp R5 s2 (g(2 \<mapsto> lvl)) ?K = Some r"
    unfolding level_names_def by auto
  from lvl(3) have \<open>rmatch inp (Str (py ''("'')) s2 (g(2 \<mapsto> lvl)) (\<lambda>s' g'. rmatch inp R6 s' g' ?K) = Some r\<close>
    unfolding R5_def by (simp only: rmatch.simps(7))
  from rmatch_Str_D[OF this] obtain s3 where s3: \<open>s2 = py ''("'' @ s3\<close>
    "rmatch inp R6 s3 (g(2 \<mapsto> lvl)) ?K = Some r" by blast
  from s3(2) have g3: "rmatch inp (Grp 3 (Plus (\<lambda>c. c \<noteq> 34))) s3 (g(2 \<mapsto> lvl))
      (\<lambda>s' g'. rmatch inp R7 s' g' ?K) = Some r"
    unfolding R6_def by (simp only: rmatch.simps(7))
  have fail: "rmatch inp R7 (c # cs) g' ?K = None" if "c \<noteq> 34" for c cs g'
    unfolding R7_def using that by simp
  let ?msg = "takeWhile (\<lambda>c. c \<noteq> 34) s3"
  from rmatch_Grp_Plus_D[OF g3 fail] have msg: "?msg \<noteq> []"
    "rmatch inp R7 (dropWhile (\<lambda>c. c \<noteq> 34) s3) (g(2 \<mapsto> lvl, 3 \<mapsto> ?msg)) ?K = Some r"
    by blast+
  from msg(2) have \<open>rmatch inp (Str (py ''"'')) (dropWhile (\<lambda>c. c \<noteq> 34) s3) (g(2 \<mapsto> lvl, 3 \<mapsto> ?msg))
      (\<lambda>s' g'. rmatch inp pattern_tail s' g' ?K) = Some r\<close>
    unfolding R7_def by (simp only: rmatch.simps(7))
  from rmatch_Str_D[OF this] obtain rest where rest: \<open>dropWhile (\<lambda>c. c \<noteq> 34) s3 = py ''"'' @ rest\<close>
    "rmatch inp pattern_tail rest (g(2 \<mapsto> lvl, 3 \<mapsto> ?msg)) ?K = Some r" by blast
  have "s3 = ?msg @ dropWhile (\<lambda>c. c \<noteq> 34) s3" by simp
  with rest(1) have s3': "s3 = ?msg @ 34 # rest" by simp
  have nq: "34 \<notin> set ?msg" by (auto dest: set_takeWhileD)
  have dec: \<open>s = py ''d.logger.'' @ lvl @ py ''("'' @ ?msg @ 34 # rest\<close>
    using s1(1) lvl(2) s3(1) s3' by (simp only: append_assoc)
  from tail_sound[OF rest(2)] lvl(1) msg(1) nq dec show ?thesis by blast
qed

lemma re_match_sound:
  assumes "re_match pattern line = Some r"
  shows \<open>\<exists>lvl msg rest. lvl \<in> set level_names \<and> msg \<noteq> [] \<and> 34 \<notin> set msg
      \<and> dropWhile isspace line = py ''d.logger.'' @ lvl @ py ''("'' @ msg @ 34 # rest
      \<and> r 1 = Some (takeWhile isspace line) \<and> r 2 = Some lvl \<and> r 3 = Some msg
      \<and> ((r 4 = None \<and> (rest = [41] \<or> rest = [41, 10]))
          \<or> (\<exists>ws a tl. rest = 44 # ws @ a @ 41 # tl \<and> (\<forall>c\<in>set ws. isspace c) \<and> a \<noteq> []
                \<and> 10 \<notin> set a \<and> (tl = [] \<or> tl = [10]) \<and> r 4 = Some a))\<close>
proof -
  let ?K = "\<lambda>(s::pystr) (g::groups). Some g"
  from assms have "rmatch line (Grp 1 (Star isspace)) line Map.empty
      (\<lambda>s' g'. rmatch line pattern_body s' g' ?K) = Some r"
    unfolding re_match_def pattern_unfold by (simp only: rmatch.simps(1,7) simp_thms if_True)
  from rmatch_Grp_Star_D[OF this body_fail_space]
  have "rmatch line pattern_body (dropWhile isspace line) [1 \<mapsto> takeWhile isspace line] ?K = Some r" .
  from body_sound[OF this] obtain lvl msg rest where b:
    "lvl \<in> set level_names" "msg \<noteq> []" "34 \<notin> set msg"
    \<open>dropWhile isspace line = py ''d.logger.'' @ lvl @ py ''("'' @ msg @ 34 # rest\<close>
    "(r = [1 \<mapsto> takeWhile isspace line, 2 \<mapsto> lvl, 3 \<mapsto> msg] \<and> (rest = [41] \<or> rest = [41, 10]))
      \<or> (\<exists>ws a tl. rest = 44 # ws @ a @ 41 # tl \<and> (\<forall>c\<in>set ws. isspace c) \<and> a \<noteq> []
            \<and> 10 \<notin> set a \<and> (tl = [] \<or> tl = [10])
            \<and> r = [1 \<mapsto> takeWhile isspace line, 2 \<mapsto> lvl, 3 \<mapsto> msg, 4 \<mapsto> a])"
    by blast
  from b(5) have g: "r 1 = Some (takeWhile isspace line) \<and> r 2 = Some lvl \<and> r 3 = Some msg
      \<and> ((r 4 = None \<and> (rest = [41] \<or> rest = [41, 10]))
          \<or> (\<exists>ws a tl. rest = 44 # ws @ a @ 41 # tl \<and> (\<forall>c\<in>set ws. isspace c) \<and> a \<noteq> []
                \<and> 10 \<notin> set a \<and> (tl = [] \<or> tl = [10]) \<and> r 4 = Some a))"
  proof (rule disjE)
    assume "r = [1 \<mapsto> takeWhile isspace line, 2 \<mapsto> lvl, 3 \<mapsto> msg] \<and> (rest = [41] \<or> rest = [41, 10])"
    then show ?thesis by simp
  next
    assume "\<exists>ws a tl. rest = 44 # ws @ a @ 41 # tl \<and> (\<forall>c\<in>set ws. isspace c) \<and> a \<noteq> []
            \<and> 10 \<notin> set a \<and> (tl = [] \<or> tl = [10])
            \<and> r = [1 \<mapsto> takeWhile isspace line, 2 \<mapsto> lvl, 3 \<mapsto> msg, 4 \<mapsto> a]"
    then obtain ws a tl where
      a: "rest = 44 # ws @ a @ 41 # tl" "\<forall>c\<in>set ws. isspace c" "a \<noteq> []" "10 \<notin> set a"
      "tl = [] \<or> tl = [10]" "r = [1 \<mapsto> takeWhile isspace line, 2 \<mapsto> lvl, 3 \<mapsto> msg, 4 \<mapsto> a]"
      by blast
    from a(6) have "r 1 = Some (takeWhile isspace line)" "r 2 = Some lvl" "r 3 = Some msg" "r 4 = Some a"
      by simp_all
    with a(1-5) show ?thesis by blast
  qed
  from b(1-4) g show ?thesis by blast
qed

lemma match_line_sound:
  assumes "match_line line = Some m"
  shows \<open>\<exists>rest. indent m = takeWhile isspace line \<and> level m \<in> set level_names
      \<and> message m \<noteq> [] \<and> 34 \<notin> set (message m)
      \<and> dropWhile isspace line = py ''d.logger.'' @ level m @ py ''("'' @ message m @ 34 # rest
      \<and> ((raw_args m = None \<and> (rest = [41] \<or> rest = [41, 10]))
          \<or> (\<exists>ws a tl. rest = 44 # ws @ a @ 41 # tl \<and> (\<forall>c\<in>set ws. isspace c) \<and> a \<noteq> []
                \<and> 10 \<notin> set a \<and> (tl = [] \<or> tl = [10]) \<and> raw_args m = Some a))\<close>
proof -
  from assms obtain r where r: "re_match pattern line = Some r"
    by (auto simp: match_line_def split: option.splits)
  from re_match_sound[OF r] obtain lvl msg rest where b:
    "lvl \<in> set level_names" "msg \<noteq> []" "34 \<notin> set msg"
    \<open>dropWhile isspace line = py ''d.logger.'' @ lvl @ py ''("'' @ msg @ 34 # rest\<close>
    "r 1 = Some (takeWhile isspace line)" "r 2 = Some lvl" "r 3 = Some msg"
    "(r 4 = None \<and> (rest = [41] \<or> rest = [41, 10]))
      \<or> (\<exists>ws a tl. rest = 44 # ws @ a @ 41 # tl \<and> (\<forall>c\<in>set ws. isspace c) \<and> a \<noteq> []
            \<and> 10 \<notin> set a \<and> (tl = [] \<or> tl = [10]) \<and> r 4 = Some a)"
    by blast
  from assms r b(5-7) have m: "m = \<lparr>indent = takeWhile isspace line, level = lvl, message = msg,
      raw_args = r 4\<rparr>"
    by (simp add: match_line_def)
  have "indent m = takeWhile isspace line" "level m = lvl" "message m = msg" "raw_args m = r 4"
    by (simp_all add: m)
  with b(1-4,8) show ?thesis by (intro exI[of _ rest]) simp
qed

lemma not_space_d: "\<not> isspace 100"
  by (simp add: isspace_def)

lemma dropWhile_indent:
  "\<forall>c\<in>set ws. isspace c \<Longrightarrow> \<not> isspace x \<Longrightarrow> dropWhile isspace (ws @ x # xs) = x # xs"
  by simp

lemma takeWhile_indent:
  "\<forall>c\<in>set ws. isspace c \<Longrightarrow> \<not> isspace x \<Longrightarrow> takeWhile isspace (ws @ x # xs) = ws"
  by simp

lemma level_paren_eq:
  assumes "l1 \<in> set level_names" "l2 \<in> set level_names" "l1 @ 40 # x = l2 @ 40 # y"
  shows "l1 = l2 \<and> x = y"
  using assms by (auto simp: level_names_def)

lemma rewrite_line_total: "\<exists>out. rewrite_line line = Inr out"
  using convert_log_call_Inr by (cases "match_line line") (auto simp: rewrite_line_def)

lemma fix_lines_acc:
  "\<exists>new. fix_lines ls acc = Inr (acc @ new) \<and> length new = length ls
     \<and> (\<forall>i<length ls. rewrite_line (ls ! i) = Inr (new ! i))"
proof (induction ls arbitrary: acc)
  case Nil
  then show ?case by simp
next
  case (Cons l ls)
  obtain out where out: "rewrite_line l = Inr out" using rewrite_line_total by blast
  from Cons.IH[of "acc @ [out]"] obtain new where new:
    "fix_lines ls (acc @ [out]) = Inr ((acc @ [out]) @ new)" "length new = length ls"
    "\<forall>i<length ls. rewrite_line (ls ! i) = Inr (new ! i)" by blast
  have "fix_lines (l # ls) acc = Inr (acc @ (out # new))" using out new(1) by simp
  moreover have "length (out # new) = length (l # ls)" using new(2) by simp
  moreover have "\<forall>i<length (l # ls). rewrite_line ((l # ls) ! i) = Inr ((out # new) ! i)"
    using out new(3) by (auto simp: nth_Cons split: nat.splits)
  ultimately show ?case by blast
qed

lemma rmatch_Grp_Star_eq:
  assumes "\<And>c cs g'. P c \<Longrightarrow> k (c # cs) g' = None"
  shows "rmatch inp (Grp n (Star P)) s g k = k (dropWhile P s) (g(n \<mapsto> takeWhile P s))"
proof -
  have "star_greedy P s (\<lambda>s'. k s' (g(n \<mapsto> take (length s - length s') s)))
      = k (dropWhile P s) (g(n \<mapsto> take (length s - length (dropWhile P s)) s))"
    by (rule star_greedy_skip) (simp add: assms)
  then show ?thesis by (simp add: take_length_dropWhile)
qed

lemma rmatch_Grp_Plus_eq:
  assumes "\<And>c cs g'. P c \<Longrightarrow> k (c # cs) g' = None" "P c"
  shows "rmatch inp (Grp n (Plus P)) (c # cs) g k
       = k (dropWhile P cs) (g(n \<mapsto> c # takeWhile P cs))"
proof -
  have "star_greedy P cs (\<lambda>s'. k s' (g(n \<mapsto> take (length (c # cs) - length s') (c # cs))))
      = k (dropWhile P cs) (g(n \<mapsto> take (length (c # cs) - length (dropWhile P cs)) (c # cs)))"
    by (rule star_greedy_skip) (simp add: assms(1))
  moreover have "take (length (c # cs) - length (dropWhile P (c # cs))) (c # cs) = takeWhile P (c # cs)"
    by (rule take_length_dropWhile)
  ultimately show ?thesis using assms(2) by simp
qed

lemma levels_eq:
  assumes "lvl \<in> set level_names"
  shows "rmatch inp (Grp 2 (Alt (Str (py ''Info'')) (Alt (Str (py ''Debug''))
                (Alt (Str (py ''Error'')) (Str (py ''Warn'')))))) (lvl @ 40 # s') g k
       = k (40 # s') (g(2 \<mapsto> lvl))"
  using assms by (auto simp: level_names_def split: option.splits)

lemma tail_close: "rmatch inp pattern_tail [41] g (\<lambda>s g. Some g) = Some g"
  by (simp add: pattern_tail_def)

lemma match_line_no_args:
  assumes "\<forall>c\<in>set ws. isspace c" "lvl \<in> set level_names" "msg \<noteq> []" "34 \<notin> set msg"
  shows \<open>match_line (ws @ py ''d.logger.'' @ lvl @ py ''("'' @ msg @ py ''")'')
       = Some \<lparr>indent = ws, level = lvl, message = msg, raw_args = None\<rparr>\<close>
proof -
  let ?K = "\<lambda>(s::pystr) (g::groups). Some g"
  let ?rest = \<open>py ''.logger.'' @ lvl @ py ''("'' @ msg @ py ''")''\<close>
  let ?line = \<open>ws @ py ''d.logger.'' @ lvl @ py ''("'' @ msg @ py ''")''\<close>
  have line: "?line = ws @ 100 # ?rest" by simp
  have tk: "takeWhile isspace ?line = ws" and dr: "dropWhile isspace ?line = 100 # ?rest"
    unfolding line using assms(1) not_space_d by simp_all
  obtain c cs where msg: "msg = c # cs" using assms(3) by (cases msg) auto
  with assms(4) have c: "c \<noteq> 34" and cs: "34 \<notin> set cs" by auto
  have tkm: "takeWhile (\<lambda>c. c \<noteq> 34) (cs @ [34, 41]) = cs"
    and drm: "dropWhile (\<lambda>c. c \<noteq> 34) (cs @ [34, 41]) = [34, 41]"
  proof -
    from cs have "\<And>x. x \<in> set cs \<Longrightarrow> x \<noteq> 34" by blast
    then show "takeWhile (\<lambda>c. c \<noteq> 34) (cs @ [34, 41]) = cs"
      and "dropWhile (\<lambda>c. c \<noteq> 34) (cs @ [34, 41]) = [34, 41]"
      by simp_all
  qed
  have fail: "rmatch inp (Seq (Str (py [CHR 0x22])) pattern_tail) (c # cs) g' ?K = None"
    if "c \<noteq> 34" for inp c cs g'
    using that by simp
  have g3: \<open>rmatch ?line (Seq (Grp 3 (Plus (\<lambda>c. c \<noteq> 34))) (Seq (Str (py [CHR 0x22])) pattern_tail))
            (msg @ [34, 41]) g ?K = Some (g(3 \<mapsto> msg))\<close> for g
  proof -
    have \<open>rmatch ?line (Grp 3 (Plus (\<lambda>c. c \<noteq> 34))) (c # (cs @ [34, 41])) g
            (\<lambda>s' g'. rmatch ?line (Seq (Str (py [CHR 0x22])) pattern_tail) s' g' ?K)
        = rmatch ?line (Seq (Str (py [CHR 0x22])) pattern_tail) (dropWhile (\<lambda>c. c \<noteq> 34) (cs @ [34, 41]))
            (g(3 \<mapsto> c # takeWhile (\<lambda>c. c \<noteq> 34) (cs @ [34, 41]))) ?K\<close>
      by (rule rmatch_Grp_Plus_eq) (simp_all add: c)
    also have "\<dots> = Some (g(3 \<mapsto> msg))"
      unfolding tkm drm msg by (simp add: tail_close)
    finally show ?thesis by (simp add: msg)
  qed
  have body: \<open>rmatch ?line pattern_body (100 # ?rest) g ?K = Some (g(2 \<mapsto> lvl, 3 \<mapsto> msg))\<close> for g
  proof -
    have \<open>rmatch ?line pattern_body (100 # ?rest) g ?K
        = rmatch ?line (Grp 2 (Alt (Str (py ''Info'')) (Alt (Str (py ''Debug''))
                (Alt (Str (py ''Error'')) (Str (py ''Warn'')))))) (lvl @ 40 # (34 # msg @ [34, 41])) g
            (\<lambda>s' g'. rmatch ?line (Seq (Str (py [CHR ''('', CHR 0x22])) (Seq (Grp 3 (Plus (\<lambda>c. c \<noteq> 34)))
                (Seq (Str (py [CHR 0x22])) pattern_tail))) s' g' ?K)\<close>
      unfolding pattern_body_def by (simp del: rmatch.simps(10))
    also have \<open>\<dots> = rmatch ?line (Seq (Str (py [CHR ''('', CHR 0x22])) (Seq (Grp 3 (Plus (\<lambda>c. c \<noteq> 34)))
                (Seq (Str (py [CHR 0x22])) pattern_tail))) (40 # (34 # msg @ [34, 41])) (g(2 \<mapsto> lvl)) ?K\<close>
      by (rule levels_eq[OF assms(2)])
    also have \<open>\<dots> = rmatch ?line (Seq (Grp 3 (Plus (\<lambda>c. c \<noteq> 34))) (Seq (Str (py [CHR 0x22])) pattern_tail))
            (msg @ [34, 41]) (g(2 \<mapsto> lvl)) ?K\<close>
      by (simp del: rmatch.simps(10))
    also have "\<dots> = Some (g(2 \<mapsto> lvl, 3 \<mapsto> msg))" by (rule g3)
    finally show ?thesis .
  qed
  have "re_match pattern ?line
      = rmatch ?line (Grp 1 (Star isspace)) ?line Map.empty (\<lambda>s' g'. rmatch ?line pattern_body s' g' ?K)"
    unfolding re_match_def pattern_unfold by (simp only: rmatch.simps(1,7) simp_thms if_True)
  also have "\<dots> = rmatch ?line pattern_body (dropWhile isspace ?line) [1 \<mapsto> takeWhile isspace ?line] ?K"
    by (rule rmatch_Grp_Star_eq) (rule body_fail_space)
  also have "\<dots> = Some [1 \<mapsto> ws, 2 \<mapsto> lvl, 3 \<mapsto> msg]"
    unfolding tk dr by (rule body)
  finally show ?thesis by (simp add: match_line_def)
qed

section \<open>Lines, and which characters a part can hold\<close>

lemma split_on_ne: "split_on sep s \<noteq> []"
  by (induction s) (auto split: list.splits)

lemma split_on_append: "split_on sep (a @ sep # b) = split_on sep a @ split_on sep b"
proof (induction a)
  case Nil
  then show ?case by simp
next
  case (Cons c a)
  obtain x xs where x: "split_on sep a = x # xs"
    using split_on_ne[of sep a] by (cases "split_on sep a") auto
  with Cons show ?case by simp
qed

lemma split_on_id: "sep \<notin> set s \<Longrightarrow> split_on sep s = [s]"
  by (induction s) auto

lemma split_on_no_sep: "x \<in> set (split_on sep s) \<Longrightarrow> sep \<notin> set x"
proof (induction s arbitrary: x)
  case Nil
  then show ?case by simp
next
  case (Cons c s)
  obtain y ys where y: "split_on sep s = y # ys"
    using split_on_ne[of sep s] by (cases "split_on sep s") auto
  show ?case
  proof (cases "c = sep")
    case True
    with Cons show ?thesis by auto
  next
    case False
    with Cons.prems y have "x = c # y \<or> x \<in> set ys" by simp
    with Cons.IH[of y] Cons.IH[of x] y False show ?thesis by auto
  qed
qed

lemma join_Cons: "xs \<noteq> [] \<Longrightarrow> join sep (x # xs) = x @ sep @ join sep xs"
  by (cases xs) simp_all

lemma join_snoc: "xs \<noteq> [] \<Longrightarrow> join sep (xs @ [z]) = join sep xs @ sep @ z"
proof (induction xs rule: list_nonempty_induct)
  case (single x)
  then show ?case by simp
next
  case (cons x xs)
  then show ?case by (simp add: join_Cons)
qed

lemma join_split_on: "join [sep] (split_on sep s) = s"
proof (induction s)
  case Nil
  then show ?case by simp
next
  case (Cons c s)
  obtain y ys where y: "split_on sep s = y # ys"
    using split_on_ne[of sep s] by (cases "split_on sep s") auto
  show ?case
  proof (cases "c = sep")
    case True
    with Cons y show ?thesis by simp
  next
    case False
    with Cons y show ?thesis by (cases ys) simp_all
  qed
qed

lemma split_on_join:
  "xs \<noteq> [] \<Longrightarrow> split_on sep (join [sep] xs) = concat (map (split_on sep) xs)"
proof (induction xs rule: list_nonempty_induct)
  case (single x)
  then show ?case by simp
next
  case (cons x xs)
  then show ?case using split_on_append[of sep x "join [sep] xs"] by (simp add: join_Cons)
qed

lemma set_strip_by: "set (strip_by P s) \<subseteq> set s"
proof -
  have "set (dropWhile P (rev (dropWhile P s))) \<subseteq> set (rev (dropWhile P s))"
    by (auto dest: set_dropWhileD)
  also have "\<dots> \<subseteq> set s" by (auto dest: set_dropWhileD)
  finally show ?thesis by (simp add: strip_by_def)
qed

lemma split_step_chars:
  assumes "\<forall>p\<in>set (parts st). set p \<subseteq> A" "set (current st) \<subseteq> A" "c \<in> A"
  shows "(\<forall>p\<in>set (parts (split_step st c)). set p \<subseteq> A) \<and> set (current (split_step st c)) \<subseteq> A"
  using assms set_strip_by[of isspace "current st"]
  by (auto simp: split_step_def strip_def)

lemma scan_chars:
  "\<forall>p\<in>set (parts st). set p \<subseteq> A \<Longrightarrow> set (current st) \<subseteq> A \<Longrightarrow> set args \<subseteq> A \<Longrightarrow>
   (\<forall>p\<in>set (parts (scan st args)). set p \<subseteq> A) \<and> set (current (scan st args)) \<subseteq> A"
proof (induction args arbitrary: st)
  case Nil
  then show ?case by (simp add: scan_Nil)
next
  case (Cons c args)
  from Cons.prems have "(\<forall>p\<in>set (parts (split_step st c)). set p \<subseteq> A)
      \<and> set (current (split_step st c)) \<subseteq> A"
    by (intro split_step_chars) auto
  with Cons.IH[of "split_step st c"] Cons.prems show ?case by (simp add: scan_Cons)
qed

lemma split_args_chars: "p \<in> set (split_args a) \<Longrightarrow> set p \<subseteq> set a"
proof -
  assume p: "p \<in> set (split_args a)"
  have inv: "(\<forall>p\<in>set (parts (scan split_init a)). set p \<subseteq> set a)
      \<and> set (current (scan split_init a)) \<subseteq> set a"
    by (rule scan_chars) (simp_all add: split_init_def)
  have "set (strip (current (scan split_init a))) \<subseteq> set a"
    using inv set_strip_by[of isspace "current (scan split_init a)"] by (auto simp: strip_def)
  with p inv show ?thesis
    by (auto simp: split_args_def Let_def split: if_splits)
qed

lemma make_field_chars:
  "10 \<notin> set k \<Longrightarrow> 10 \<notin> set v \<Longrightarrow> 10 \<notin> set (make_field k v)"
  by (simp add: make_field_def)

lemma make_field_first: "\<exists>t. make_field k v = 108 # t"
  by (simp add: make_field_def)

section \<open>The lines of a rewritten call\<close>

lemma join_field_lines:
  "flds \<noteq> [] \<Longrightarrow>
   ind @ [9] @ join (44 # 10 # ind @ [9]) flds @ [44] = join [10] (map (\<lambda>f. ind @ 9 # f @ [44]) flds)"
proof (induction flds rule: list_nonempty_induct)
  case (single x)
  then show ?case by simp
next
  case (cons x xs)
  have "ind @ [9] @ join (44 # 10 # ind @ [9]) (x # xs) @ [44]
      = (ind @ 9 # x @ [44]) @ [10] @ (ind @ [9] @ join (44 # 10 # ind @ [9]) xs @ [44])"
    using cons.hyps by (simp add: join_Cons)
  also have "\<dots> = (ind @ 9 # x @ [44]) @ [10] @ join [10] (map (\<lambda>f. ind @ 9 # f @ [44]) xs)"
    by (simp only: cons.IH)
  also have "\<dots> = join [10] (map (\<lambda>f. ind @ 9 # f @ [44]) (x # xs))"
    using cons.hyps by (simp add: join_Cons)
  finally show ?case .
qed

lemma new_call_lines:
  assumes "flds \<noteq> []"
  shows "new_call m flds = join [10] (call_lines m flds)"
proof -
  let ?open = \<open>indent m @ py ''d.logger.'' @ level m @ py ''(ctx, "'' @ message m @ py ''",''\<close>
  let ?L = "map (\<lambda>f. indent m @ 9 # f @ [44]) flds"
  have L: "?L \<noteq> []" using assms by simp
  have "new_call m flds = ?open @ [10] @ (indent m @ [9] @ join (44 # 10 # indent m @ [9]) flds @ [44])
      @ [10] @ (indent m @ [41])"
    using assms by (simp add: new_call_def)
  also have "\<dots> = ?open @ [10] @ join [10] ?L @ [10] @ (indent m @ [41])"
    by (simp only: join_field_lines[OF assms])
  also have "\<dots> = ?open @ [10] @ join [10] (?L @ [indent m @ [41]])"
    by (simp add: join_snoc[OF L])
  also have "\<dots> = join [10] (?open # ?L @ [indent m @ [41]])"
    using L by (simp add: join_Cons)
  finally show ?thesis by (simp add: call_lines_def)
qed

text \<open>
  Groups 1 to 3 are set by every match, so \<open>match_line\<close> fails only when
  \<^verbatim>\<open>re.match\<close> does.
\<close>

lemma match_line_None_iff: "match_line line = None \<longleftrightarrow> re_match pattern line = None"
proof
  assume n: "match_line line = None"
  show "re_match pattern line = None"
  proof (rule ccontr)
    assume "re_match pattern line \<noteq> None"
    then obtain r where r: "re_match pattern line = Some r" by blast
    from re_match_sound[OF r] obtain lvl msg where
      "r 1 = Some (takeWhile isspace line)" "r 2 = Some lvl" "r 3 = Some msg" by blast
    with r n show False by (simp add: match_line_def)
  qed
next
  assume "re_match pattern line = None"
  then show "match_line line = None" by (simp add: match_line_def)
qed

lemma match_line_first:
  assumes "match_line l = Some m"
  shows "\<exists>xs. dropWhile isspace l = 100 # xs"
  using match_line_sound[OF assms] by auto

lemma no_match_first:
  assumes "\<forall>c\<in>set ws. isspace c" "x \<noteq> 100" "\<not> isspace x"
  shows "match_line (ws @ x # xs) = None"
proof (rule ccontr)
  assume "match_line (ws @ x # xs) \<noteq> None"
  then obtain m where "match_line (ws @ x # xs) = Some m" by blast
  from match_line_first[OF this] assms show False
    by (simp add: dropWhile_indent)
qed

lemma no_match_ctx:
  assumes "\<forall>c\<in>set ws. isspace c" "lvl \<in> set level_names"
  shows \<open>match_line (ws @ py ''d.logger.'' @ lvl @ py ''(ctx, "'' @ rest) = None\<close>
proof (rule ccontr)
  let ?line = \<open>ws @ py ''d.logger.'' @ lvl @ py ''(ctx, "'' @ rest\<close>
  assume "match_line ?line \<noteq> None"
  then obtain m where m: "match_line ?line = Some m" by blast
  from match_line_sound[OF m] obtain rest' where s:
    "level m \<in> set level_names"
    \<open>dropWhile isspace ?line = py ''d.logger.'' @ level m @ py ''("'' @ message m @ 34 # rest'\<close>
    by blast
  have \<open>?line = ws @ 100 # (py ''.logger.'' @ lvl @ py ''(ctx, "'' @ rest)\<close> by simp
  then have \<open>dropWhile isspace ?line = 100 # (py ''.logger.'' @ lvl @ py ''(ctx, "'' @ rest)\<close>
    using dropWhile_indent[OF assms(1) not_space_d] by simp
  with s(2) have \<open>lvl @ 40 # (py ''ctx, "'' @ rest) = level m @ 40 # (34 # message m @ 34 # rest')\<close>
    by simp
  from level_paren_eq[OF assms(2) s(1) this] show False by simp
qed

lemma match_line_parts:
  assumes "match_line line = Some m"
  shows "(\<forall>c\<in>set (indent m). isspace c) \<and> level m \<in> set level_names
       \<and> set (indent m) \<subseteq> set line \<and> set (message m) \<subseteq> set line
       \<and> (\<forall>a. raw_args m = Some a \<longrightarrow> a \<noteq> [] \<and> set a \<subseteq> set line)"
proof -
  from match_line_sound[OF assms] obtain rest where s:
    "indent m = takeWhile isspace line" "level m \<in> set level_names"
    \<open>dropWhile isspace line = py ''d.logger.'' @ level m @ py ''("'' @ message m @ 34 # rest\<close>
    "(raw_args m = None \<and> (rest = [41] \<or> rest = [41, 10]))
      \<or> (\<exists>ws a tl. rest = 44 # ws @ a @ 41 # tl \<and> (\<forall>c\<in>set ws. isspace c) \<and> a \<noteq> []
            \<and> 10 \<notin> set a \<and> (tl = [] \<or> tl = [10]) \<and> raw_args m = Some a)"
    by blast
  have line: "line = takeWhile isspace line @ dropWhile isspace line" by simp
  have sp: "\<forall>c\<in>set (indent m). isspace c" unfolding s(1) by (auto dest: set_takeWhileD)
  have i: "set (indent m) \<subseteq> set line" unfolding s(1) by (auto dest: set_takeWhileD)
  have d: "set (dropWhile isspace line) \<subseteq> set line" by (auto dest: set_dropWhileD)
  have "set (message m) \<subseteq> set (dropWhile isspace line)" unfolding s(3) by auto
  with d have msg: "set (message m) \<subseteq> set line" by blast
  have "set rest \<subseteq> set (dropWhile isspace line)" unfolding s(3) by auto
  with d have r: "set rest \<subseteq> set line" by blast
  have "\<forall>a. raw_args m = Some a \<longrightarrow> a \<noteq> [] \<and> set a \<subseteq> set line"
  proof (intro allI impI)
    fix a assume a: "raw_args m = Some a"
    with s(4) obtain ws tl where "rest = 44 # ws @ a @ 41 # tl" "a \<noteq> []" by auto
    then have "set a \<subseteq> set rest" "a \<noteq> []" by auto
    with r show "a \<noteq> [] \<and> set a \<subseteq> set line" by blast
  qed
  with sp s(2) i msg show ?thesis by blast
qed

lemma convert_log_call_cases:
  "convert_log_call m = Inr (new_call m [])
   \<or> (\<exists>a flds. raw_args m = Some a \<and> a \<noteq> [] \<and> build_fields (split_args a) 0 [] = Inr flds
         \<and> convert_log_call m = Inr (new_call m flds))"
proof (cases "raw_args m")
  case None
  then show ?thesis by (simp add: convert_log_call_def)
next
  case (Some a)
  show ?thesis
  proof (cases "a = []")
    case True
    with Some show ?thesis by (simp add: convert_log_call_def)
  next
    case False
    obtain flds where f: "build_fields (split_args a) 0 [] = Inr flds"
      using build_fields_total by blast
    with Some False have "convert_log_call m = Inr (new_call m flds)"
      by (simp add: convert_log_call_def)
    with Some False f show ?thesis by blast
  qed
qed

lemma build_fields_members:
  assumes "build_fields ps 0 [] = Inr flds" "f \<in> set flds"
  shows "\<exists>k v. k \<in> set ps \<and> v \<in> set ps \<and> f = make_field (strip_chars [39] (strip_chars [34] k)) v"
proof -
  obtain fs where fs: "build_fields ps 0 [] = Inr ([] @ fs)" "length fs = (length ps - 0) div 2"
    "\<forall>j<length fs. fs ! j =
       make_field (strip_chars [39] (strip_chars [34] (ps ! (0 + 2 * j)))) (ps ! (0 + 2 * j + 1))"
    using build_fields_acc[of ps 0 "[]"] by blast
  with assms(1) have eq: "flds = fs" by simp
  from assms(2) obtain j where j: "j < length flds" "f = flds ! j" by (auto simp: in_set_conv_nth)
  from j(1) fs(2) eq have b: "2 * j + 1 < length ps" by simp
  then have "ps ! (2 * j) \<in> set ps" "ps ! (2 * j + 1) \<in> set ps" by simp_all
  moreover have "f = make_field (strip_chars [39] (strip_chars [34] (ps ! (2 * j)))) (ps ! (2 * j + 1))"
    using fs(3) j eq by simp
  ultimately show ?thesis by blast
qed

lemma level_names_chars: "l \<in> set level_names \<Longrightarrow> 10 \<notin> set l"
  by (auto simp: level_names_def)

lemma second_pass:
  assumes "10 \<notin> set line" "rewrite_line line = Inr out" "l \<in> set (split_on 10 out)"
  shows "match_line l = None"
proof (cases "match_line line")
  case None
  with assms(2) have "out = line" by (simp add: rewrite_line_def)
  with assms(1,3) have "l = line" by (simp add: split_on_id)
  with None show ?thesis by simp
next
  case (Some m)
  with assms(2) have conv: "convert_log_call m = Inr out" by (simp add: rewrite_line_def)
  from match_line_parts[OF Some] have p:
    "\<forall>c\<in>set (indent m). isspace c" "level m \<in> set level_names"
    "set (indent m) \<subseteq> set line" "set (message m) \<subseteq> set line"
    "\<forall>a. raw_args m = Some a \<longrightarrow> a \<noteq> [] \<and> set a \<subseteq> set line"
    by blast+
  from p(3,4) assms(1) level_names_chars[OF p(2)]
  have nl: "10 \<notin> set (indent m)" "10 \<notin> set (message m)" "10 \<notin> set (level m)" by blast+
  from convert_log_call_cases[of m] show ?thesis
  proof (elim disjE exE conjE)
    assume "convert_log_call m = Inr (new_call m [])"
    with conv have out: \<open>out = indent m @ py ''d.logger.'' @ level m @ py ''(ctx, "'' @ message m @ py ''")''\<close>
      by (simp add: new_call_def)
    have "10 \<notin> set out" unfolding out using nl by simp
    with assms(3) have "l = out" by (simp add: split_on_id)
    then show ?thesis unfolding out by (simp only: no_match_ctx[OF p(1,2)])
  next
    fix a flds
    assume a: "raw_args m = Some a" "a \<noteq> []" "build_fields (split_args a) 0 [] = Inr flds"
      "convert_log_call m = Inr (new_call m flds)"
    from a(4) conv have out: "out = new_call m flds" by simp
    show ?thesis
    proof (cases "flds = []")
      case True
      with out have out': \<open>out = indent m @ py ''d.logger.'' @ level m @ py ''(ctx, "'' @ message m @ py ''")''\<close>
        by (simp add: new_call_def)
      have "10 \<notin> set out" unfolding out' using nl by simp
      with assms(3) have "l = out" by (simp add: split_on_id)
      then show ?thesis unfolding out' by (simp only: no_match_ctx[OF p(1,2)])
    next
      case False
      from a(1) p(5) have sa: "set a \<subseteq> set line" by blast
      have fl: "10 \<notin> set f \<and> (\<exists>t. f = 108 # t)" if "f \<in> set flds" for f
      proof -
        from build_fields_members[OF a(3) that] obtain k v where kv:
          "k \<in> set (split_args a)" "v \<in> set (split_args a)"
          "f = make_field (strip_chars [39] (strip_chars [34] k)) v" by blast
        from split_args_chars[OF kv(1)] split_args_chars[OF kv(2)] sa assms(1)
        have "10 \<notin> set k" "10 \<notin> set v" by blast+
        moreover have "set (strip_chars [39] (strip_chars [34] k)) \<subseteq> set k"
          using set_strip_by[of "\<lambda>c. c \<in> set [39]" "strip_chars [34] k"]
            set_strip_by[of "\<lambda>c. c \<in> set [34]" k]
          unfolding strip_chars_def by blast
        ultimately have "10 \<notin> set f" unfolding kv(3) by (intro make_field_chars) blast+
        with make_field_first[of "strip_chars [39] (strip_chars [34] k)" v] kv(3)
        show ?thesis by simp
      qed
      have free: "10 \<notin> set x" if "x \<in> set (call_lines m flds)" for x
        using that nl fl by (auto simp: call_lines_def)
      have "split_on 10 out = concat (map (split_on 10) (call_lines m flds))"
        unfolding out new_call_lines[OF False]
        by (rule split_on_join) (simp add: call_lines_def)
      also have "\<dots> = concat (map (\<lambda>x. [x]) (call_lines m flds))"
        using free by (simp add: split_on_id cong: map_cong)
      also have "\<dots> = call_lines m flds" by (induction "call_lines m flds") simp_all
      finally have "l \<in> set (call_lines m flds)" using assms(3) by simp
      then consider
          (op) \<open>l = indent m @ py ''d.logger.'' @ level m @ py ''(ctx, "'' @ message m @ py ''",''\<close>
        | (fld) f where "f \<in> set flds" "l = indent m @ 9 # f @ [44]"
        | (cl) "l = indent m @ [41]"
        by (auto simp: call_lines_def)
      then show ?thesis
      proof cases
        case op
        then show ?thesis by (simp only: no_match_ctx[OF p(1,2)])
      next
        case fld
        from fl[OF fld(1)] obtain t where t: "f = 108 # t" by blast
        have sp: "\<forall>c\<in>set (indent m @ [9]). isspace c" using p(1) by (simp add: isspace_def)
        have "l = (indent m @ [9]) @ 108 # (t @ [44])" using fld(2) t by simp
        then show ?thesis using no_match_first[OF sp, of 108] by (simp add: isspace_def)
      next
        case cl
        then show ?thesis using no_match_first[OF p(1), of 41 "[]"] by (simp add: isspace_def)
      qed
    qed
  qed
qed

section \<open>The claims\<close>

text \<open>The definitions a concrete input is evaluated with.\<close>

lemmas eval_defs = isspace_def match_line_def re_match_def pattern_def rewrite_line_def
  convert_log_call_def new_call_def split_args_def scan_def split_step_def split_init_def strip_def
  strip_by_def strip_chars_def make_field_def py_index_def build_fields.simps

text \<open>
  C9. Whatever the raw argument text is (odd part count, unbalanced parentheses, an
  unterminated quote), the splitter and the field builder finish and
  \<^verbatim>\<open>convert_log_call\<close> returns a string: the only operation that can raise, the indexing
  of \<^verbatim>\<open>parts\<close>, is always in range, and the while loop terminates.
\<close>

theorem convert_log_call_total:
  "(\<exists>flds. build_fields (split_args a) 0 [] = Inr flds) \<and> (\<exists>out. convert_log_call m = Inr out)"
  using build_fields_total[of "split_args a"] convert_log_call_Inr[of m] by blast

text \<open>
  C6. When the raw arguments of a matched call split into an odd number of parts, the
  field builder pairs the parts two at a time in order, and the last part has no effect:
  the fields, and so the text returned, are those of the parts without the last one, and
  no error is raised.
\<close>

theorem odd_part_dropped:
  assumes "raw_args m = Some a" "odd (length (split_args a))"
  shows "\<exists>flds. build_fields (butlast (split_args a)) 0 [] = Inr flds
           \<and> build_fields (split_args a) 0 [] = Inr flds
           \<and> convert_log_call m = Inr (new_call m flds)
           \<and> length flds = length (split_args a) div 2
           \<and> (\<forall>j<length flds. flds ! j =
                 make_field (strip_chars [39] (strip_chars [34] (split_args a ! (2 * j))))
                   (split_args a ! (2 * j + 1)))"
proof -
  let ?ps = "split_args a"
  obtain fs where fs: "build_fields ?ps 0 [] = Inr fs" "length fs = length ?ps div 2"
    "\<forall>j<length fs. fs ! j =
       make_field (strip_chars [39] (strip_chars [34] (?ps ! (2 * j)))) (?ps ! (2 * j + 1))"
    using build_fields_acc[of ?ps 0 "[]"] by auto
  obtain gs where gs: "build_fields (butlast ?ps) 0 [] = Inr gs"
    "length gs = length (butlast ?ps) div 2"
    "\<forall>j<length gs. gs ! j =
       make_field (strip_chars [39] (strip_chars [34] (butlast ?ps ! (2 * j))))
         (butlast ?ps ! (2 * j + 1))"
    using build_fields_acc[of "butlast ?ps" 0 "[]"] by auto
  from assms(2) have len: "length gs = length fs"
    using fs(2) gs(2) by (auto elim!: oddE)
  have "gs = fs"
  proof (rule nth_equalityI[OF len])
    fix j assume j: "j < length gs"
    with gs(2) have "2 * j + 1 < length (butlast ?ps)" by simp
    then have "butlast ?ps ! (2 * j) = ?ps ! (2 * j)" "butlast ?ps ! (2 * j + 1) = ?ps ! (2 * j + 1)"
      by (simp_all add: nth_butlast)
    with gs(3) fs(3) j len show "gs ! j = fs ! j" by simp
  qed
  have ne: "a \<noteq> []"
  proof
    assume "a = []"
    then have "split_args a = []"
      by (simp add: split_args_def scan_def split_init_def strip_def strip_by_def)
    with assms(2) show False by simp
  qed
  have "convert_log_call m = Inr (new_call m fs)"
    using assms(1) ne fs(1) by (simp add: convert_log_call_def)
  with fs gs \<open>gs = fs\<close> show ?thesis by blast
qed

text \<open>The call with arguments \<^verbatim>\<open>"a", 1, "b"\<close>: the part \<^verbatim>\<open>"b"\<close> leaves no trace.\<close>

theorem odd_part_dropped_witness:
  \<open>raw_args \<lparr>indent = [9], level = py ''Info'', message = py ''m'', raw_args = Some (py ''"a", 1, "b"'')\<rparr>
      = Some (py ''"a", 1, "b"'')
   \<and> odd (length (split_args (py ''"a", 1, "b"'')))
   \<and> convert_log_call \<lparr>indent = [9], level = py ''Info'', message = py ''m'',
        raw_args = Some (py ''"a", 1, "b"'')\<rparr>
      = Inr (9 # py ''d.logger.Info(ctx, "m",'' @ [10, 9, 9]
             @ py ''logging.Field{Key: "a", Value: 1},'' @ [10, 9] @ py '')'')\<close>
proof -
  have h: \<open>odd (length (split_args (py ''"a", 1, "b"'')))\<close>
    by (simp add: eval_defs)
  from odd_part_dropped[OF _ h, of \<open>\<lparr>indent = [9], level = py ''Info'', message = py ''m'',
        raw_args = Some (py ''"a", 1, "b"'')\<rparr>\<close>]
  show ?thesis using h by (simp add: eval_defs)
qed

text \<open>
  C5. A quote character (single or double) read outside a literal opens one, and the
  literal ends at the next quote character of the same kind. Whatever stands between
  them, commas included, is appended to the current part as it is and flushes no part;
  this holds as well while the literal is still open. A part that is one literal is
  returned as one part.
\<close>

theorem quoted_comma_not_split:
  assumes "\<not> in_quotes (scan split_init pre)" "q = 34 \<or> q = 39" "q \<notin> set mid"
  shows "parts (scan split_init (pre @ q # mid)) = parts (scan split_init pre)
       \<and> current (scan split_init (pre @ q # mid)) = current (scan split_init pre) @ q # mid
       \<and> parts (scan split_init (pre @ q # mid @ [q])) = parts (scan split_init pre)
       \<and> current (scan split_init (pre @ q # mid @ [q])) = current (scan split_init pre) @ q # mid @ [q]
       \<and> \<not> in_quotes (scan split_init (pre @ q # mid @ [q]))
       \<and> split_args (q # mid @ [q]) = [q # mid @ [q]]"
proof -
  let ?st = "scan split_init pre"
  have a: "scan split_init (pre @ q # mid) = scan ?st (q # mid)"
    and b: "scan split_init (pre @ q # mid @ [q]) = scan ?st (q # mid @ [q])"
    by (simp_all add: scan_append)
  have sp: "\<not> isspace q" using assms(2) by (auto simp: isspace_def)
  have i: "\<not> in_quotes split_init" by (simp add: split_init_def)
  have "scan split_init (q # mid @ [q]) =
      split_init\<lparr>in_quotes := False, quote_char := None, current := current split_init @ q # mid @ [q]\<rparr>"
    by (rule scan_literal(2)[OF i assms(2,3)])
  then have c: "split_args (q # mid @ [q]) = [q # mid @ [q]]"
    using strip_by_keep[of isspace q q mid] sp
    by (simp add: split_args_def Let_def split_init_def strip_def)
  show ?thesis
    unfolding a b
    using scan_literal[OF assms] c by simp
qed

text \<open>The arguments \<^verbatim>\<open>"k", "a, b"\<close>: the comma of the second literal is kept.\<close>

theorem quoted_comma_not_split_witness:
  \<open>\<not> in_quotes (scan split_init (py ''"k", '')) \<and> ((34::nat) = 34 \<or> (34::nat) = 39)
    \<and> 34 \<notin> set (py ''a, b'')
    \<and> split_args (py ''"k", "a, b"'') = [py ''"k"'', py ''"a, b"'']
    \<and> split_args (py ''"a, b"'') = [py ''"a, b"'']\<close>
proof -
  have h1: \<open>\<not> in_quotes (scan split_init (py ''"k", ''))\<close> by (simp add: eval_defs)
  have h2: \<open>34 \<notin> set (py ''a, b'')\<close> by simp
  from quoted_comma_not_split[OF h1 _ h2]
  show ?thesis using h1 by (simp add: eval_defs)
qed

text \<open>
  C4, as amended. A parenthesized sub-expression whose opening parenthesis is read outside
  a literal, at a depth that is not negative, and whose content is well nested, is
  appended to the current part as it is and flushes no part: none of its commas is a
  split point. The raw arguments \<^verbatim>\<open>"result", compute(a, b, c)\<close> split into two parts
  and give one field, whose value is \<^verbatim>\<open>compute(a, b, c)\<close>; so the call
  \<^verbatim>\<open>d.logger.Warn("msg", "result", compute(a, b, c))\<close> is rewritten with that one field.
\<close>

theorem paren_comma_not_split:
  \<open>(nested mid \<longrightarrow> \<not> in_quotes (scan split_init pre) \<longrightarrow> 0 \<le> paren_depth (scan split_init pre) \<longrightarrow>
      parts (scan split_init (pre @ 40 # mid @ [41])) = parts (scan split_init pre)
    \<and> current (scan split_init (pre @ 40 # mid @ [41])) = current (scan split_init pre) @ 40 # mid @ [41]
    \<and> paren_depth (scan split_init (pre @ 40 # mid @ [41])) = paren_depth (scan split_init pre))
   \<and> split_args (py ''"result", compute(a, b, c)'') = [py ''"result"'', py ''compute(a, b, c)'']
   \<and> build_fields (split_args (py ''"result", compute(a, b, c)'')) 0 []
        = Inr [py ''logging.Field{Key: "result", Value: compute(a, b, c)}'']
   \<and> rewrite_line (py ''d.logger.Warn("msg", "result", compute(a, b, c))'')
        = Inr (py ''d.logger.Warn(ctx, "msg",'' @ [10, 9]
               @ py ''logging.Field{Key: "result", Value: compute(a, b, c)},'' @ [10] @ py '')'')\<close>
proof -
  have g: "nested mid \<longrightarrow> \<not> in_quotes (scan split_init pre) \<longrightarrow> 0 \<le> paren_depth (scan split_init pre) \<longrightarrow>
      parts (scan split_init (pre @ 40 # mid @ [41])) = parts (scan split_init pre)
    \<and> current (scan split_init (pre @ 40 # mid @ [41])) = current (scan split_init pre) @ 40 # mid @ [41]
    \<and> paren_depth (scan split_init (pre @ 40 # mid @ [41])) = paren_depth (scan split_init pre)"
    using scan_group[of mid "scan split_init pre"] by (simp add: scan_append)
  have e1: \<open>split_args (py ''"result", compute(a, b, c)'') = [py ''"result"'', py ''compute(a, b, c)'']\<close>
    by (simp add: eval_defs)
  have e2: \<open>build_fields [py ''"result"'', py ''compute(a, b, c)''] 0 []
        = Inr [py ''logging.Field{Key: "result", Value: compute(a, b, c)}'']\<close>
    by (simp add: eval_defs)
  have e3: \<open>rewrite_line (py ''d.logger.Warn("msg", "result", compute(a, b, c))'')
        = Inr (py ''d.logger.Warn(ctx, "msg",'' @ [10, 9]
               @ py ''logging.Field{Key: "result", Value: compute(a, b, c)},'' @ [10] @ py '')'')\<close>
    by (simp add: eval_defs)
  show ?thesis using g e2 e3 unfolding e1 by blast
qed

text \<open>The sub-expression \<^verbatim>\<open>(a, b, c)\<close> after \<^verbatim>\<open>"result", compute\<close>.\<close>

theorem paren_comma_not_split_witness:
  \<open>nested (py ''a, b, c'') \<and> \<not> in_quotes (scan split_init (py ''"result", compute''))
    \<and> 0 \<le> paren_depth (scan split_init (py ''"result", compute''))
    \<and> parts (scan split_init (py ''"result", compute(a, b, c)'')) = [py ''"result"'']
    \<and> current (scan split_init (py ''"result", compute(a, b, c)'')) = py '' compute(a, b, c)''\<close>
proof -
  have h1: \<open>nested (py ''a, b, c'')\<close> by (auto intro!: nested.intros)
  have h2: \<open>\<not> in_quotes (scan split_init (py ''"result", compute''))\<close> by (simp add: eval_defs)
  have h3: \<open>0 \<le> paren_depth (scan split_init (py ''"result", compute''))\<close> by (simp add: eval_defs)
  have p: \<open>parts (scan split_init (py ''"result", compute'')) = [py ''"result"'']\<close>
    \<open>current (scan split_init (py ''"result", compute'')) = py '' compute''\<close>
    by (simp_all add: eval_defs)
  from paren_comma_not_split[of \<open>py ''a, b, c''\<close> \<open>py ''"result", compute''\<close>] h1 h2 h3 p
  show ?thesis by simp
qed

text \<open>
  C4 as stated fails: after an unmatched closing parenthesis the depth is negative, the
  next opening parenthesis brings it back to zero, and the comma of \<^verbatim>\<open>(a, b)\<close> splits.
\<close>

theorem paren_comma_split_counterexample:
  \<open>split_args (py ''"k", x)(a, b)'') = [py ''"k"'', py ''x)(a'', py ''b)'']\<close>
  by (simp add: eval_defs)

text \<open>
  C8, as amended. For every pair of parts the field builder consumes, the key of the field
  is the key part with its leading and trailing double quotes removed first and its leading
  and trailing single quotes removed after that; the value is the value part as it is.
\<close>

theorem field_key_value:
  assumes "2 * j + 1 < length ps"
  shows \<open>\<exists>flds. build_fields ps 0 [] = Inr flds \<and> j < length flds
     \<and> flds ! j = py ''logging.Field{Key: "'' @ strip_chars [39] (strip_chars [34] (ps ! (2 * j)))
                   @ py ''", Value: '' @ ps ! (2 * j + 1) @ py ''}''\<close>
proof -
  obtain fs where fs: "build_fields ps 0 [] = Inr fs" "length fs = length ps div 2"
    "\<forall>j<length fs. fs ! j =
       make_field (strip_chars [39] (strip_chars [34] (ps ! (2 * j)))) (ps ! (2 * j + 1))"
    using build_fields_acc[of ps 0 "[]"] by auto
  from assms fs(2) have j: "j < length fs" by simp
  with fs(3) have "fs ! j =
       make_field (strip_chars [39] (strip_chars [34] (ps ! (2 * j)))) (ps ! (2 * j + 1))"
    by blast
  with fs(1) j show ?thesis by (simp add: make_field_def)
qed

text \<open>The pair \<^verbatim>\<open>"request_id"\<close>, \<^verbatim>\<open>req.ID\<close>.\<close>

theorem field_key_value_witness:
  \<open>2 * 0 + 1 < length [py ''"request_id"'', py ''req.ID'']
   \<and> build_fields [py ''"request_id"'', py ''req.ID''] 0 []
       = Inr [py ''logging.Field{Key: "request_id", Value: req.ID}'']\<close>
proof -
  have h: \<open>2 * 0 + 1 < length [py ''"request_id"'', py ''req.ID'']\<close> by simp
  from field_key_value[OF h] show ?thesis by (simp add: eval_defs)
qed

text \<open>
  C8 as stated fails: the two kinds of quote are removed one after the other, not together.
  A key part with double quotes inside single quotes keeps its double quotes, where removing
  both kinds from the boundary would leave \<^verbatim>\<open>a\<close>.
\<close>

theorem field_key_counterexample:
  \<open>build_fields [(39 # py ''"a"'' @ [39]), py ''v''] 0 [] = Inr [py ''logging.Field{Key: ""a"", Value: v}'']
   \<and> strip_chars [34, 39] ((39 # py ''"a"'' @ [39])) = py ''a''\<close>
  by (simp add: eval_defs)

text \<open>
  C1. A line for which \<^verbatim>\<open>re.match\<close> returns \<^verbatim>\<open>None\<close> is returned as it is: the loop body yields the line
  itself, and in the list of new lines built by \<^verbatim>\<open>fix_file\<close> it stands, unchanged, at
  the position it had among the lines read, whatever the lines before and after it are.
\<close>

theorem unmatched_line_unchanged:
  assumes "re_match pattern line = None"
  shows "rewrite_line line = Inr line
       \<and> (\<exists>new. fix_lines (pre @ line # post) [] = Inr new
             \<and> length new = length (pre @ line # post) \<and> new ! length pre = line)"
proof -
  have r: "rewrite_line line = Inr line"
    using assms by (simp add: rewrite_line_def match_line_def)
  obtain new where new: "fix_lines (pre @ line # post) [] = Inr ([] @ new)"
    "length new = length (pre @ line # post)"
    "\<forall>i<length (pre @ line # post). rewrite_line ((pre @ line # post) ! i) = Inr (new ! i)"
    using fix_lines_acc[of "pre @ line # post" "[]"] by blast
  have "length pre < length (pre @ line # post)" by simp
  with new(3) have "rewrite_line ((pre @ line # post) ! length pre) = Inr (new ! length pre)"
    by blast
  with r have "new ! length pre = line" by simp
  with r new(1,2) show ?thesis by simp
qed

text \<open>A line of the file that is no logger call.\<close>

theorem unmatched_line_unchanged_witness:
  \<open>re_match pattern (9 # py ''fmt.Println("done")'') = None
   \<and> rewrite_line (9 # py ''fmt.Println("done")'') = Inr (9 # py ''fmt.Println("done")'')\<close>
proof -
  have h: \<open>re_match pattern (9 # py ''fmt.Println("done")'') = None\<close>
    by (simp add: eval_defs)
  from unmatched_line_unchanged[OF h] h show ?thesis by simp
qed

text \<open>
  C10. A call of the legacy shape whose message is the empty literal is not matched,
  whatever follows the two quotes: the pattern wants at least one character other than a
  double quote between them. The line is returned unchanged.
\<close>

theorem empty_message_not_matched:
  assumes "\<forall>c\<in>set ws. isspace c" "lvl \<in> set level_names"
  shows \<open>match_line (ws @ py ''d.logger.'' @ lvl @ py ''(""'' @ rest) = None
       \<and> rewrite_line (ws @ py ''d.logger.'' @ lvl @ py ''(""'' @ rest)
           = Inr (ws @ py ''d.logger.'' @ lvl @ py ''(""'' @ rest)\<close>
proof -
  let ?line = \<open>ws @ py ''d.logger.'' @ lvl @ py ''(""'' @ rest\<close>
  have none: "match_line ?line = None"
  proof (rule ccontr)
    assume "match_line ?line \<noteq> None"
    then obtain m where m: "match_line ?line = Some m" by blast
    from match_line_sound[OF m] obtain rest' where s:
      "level m \<in> set level_names" "message m \<noteq> []" "34 \<notin> set (message m)"
      \<open>dropWhile isspace ?line = py ''d.logger.'' @ level m @ py ''("'' @ message m @ 34 # rest'\<close>
      by blast
    have \<open>?line = ws @ 100 # (py ''.logger.'' @ lvl @ py ''(""'' @ rest)\<close> by simp
    then have \<open>dropWhile isspace ?line = 100 # (py ''.logger.'' @ lvl @ py ''(""'' @ rest)\<close>
      using dropWhile_indent[OF assms(1) not_space_d] by simp
    with s(4) have \<open>lvl @ 40 # (34 # 34 # rest) = level m @ 40 # (34 # message m @ 34 # rest')\<close>
      by simp
    from level_paren_eq[OF assms(2) s(1) this] have "34 # rest = message m @ 34 # rest'" by simp
    with s(2,3) show False by (cases "message m") auto
  qed
  then show ?thesis by (simp add: rewrite_line_def)
qed

text \<open>The line \<^verbatim>\<open>d.logger.Info("")\<close> behind a tab.\<close>

theorem empty_message_not_matched_witness:
  \<open>isspace 9 \<and> py ''Info'' \<in> set level_names
    \<and> match_line (9 # py ''d.logger.Info("")'') = None
    \<and> rewrite_line (9 # py ''d.logger.Info("")'') = Inr (9 # py ''d.logger.Info("")'')\<close>
proof -
  have h1: "\<forall>c\<in>set [9]. isspace c" by (simp add: isspace_def)
  have h2: "py ''Info'' \<in> set level_names" by (simp add: level_names_def)
  have h0: "isspace 9" by (simp add: isspace_def)
  from empty_message_not_matched[OF h1 h2, of \<open>py '')''\<close>] h0 h2 show ?thesis by simp
qed

text \<open>
  C3. A second run leaves the output of the first unchanged. The content \<^verbatim>\<open>fix_file\<close>
  writes is a fixed point of \<^verbatim>\<open>fix_file\<close>; and for a line without a newline, as
  every line of the file is, no line of the text it is rewritten to matches the pattern:
  not the line with no fields, not the opening line, not a field line, not the closing line.
  Each of them is returned as it is.
\<close>

theorem second_run_unchanged:
  "(\<exists>c'. fix_content c = Inr c' \<and> fix_content c' = Inr c')
   \<and> (10 \<notin> set line \<longrightarrow> rewrite_line line = Inr out \<longrightarrow>
        (\<forall>l\<in>set (split_on 10 out). match_line l = None \<and> rewrite_line l = Inr l))"
proof
  let ?ls = "split_on 10 c"
  obtain new where new: "fix_lines ?ls [] = Inr ([] @ new)" "length new = length ?ls"
    "\<forall>i<length ?ls. rewrite_line (?ls ! i) = Inr (new ! i)"
    using fix_lines_acc[of ?ls "[]"] by blast
  let ?c' = "join [10] new"
  have c': "fix_content c = Inr ?c'" using new(1) by (simp add: fix_content_def)
  have ne: "new \<noteq> []" using new(2) split_on_ne[of 10 c] by auto
  let ?ls2 = "split_on 10 ?c'"
  have ls2: "?ls2 = concat (map (split_on 10) new)" by (rule split_on_join[OF ne])
  have fixed: "rewrite_line l = Inr l" if "l \<in> set ?ls2" for l
  proof -
    from that ls2 obtain x where x: "x \<in> set new" "l \<in> set (split_on 10 x)" by auto
    then obtain i where i: "i < length new" "x = new ! i" by (auto simp: in_set_conv_nth)
    with new(2,3) have r: "rewrite_line (?ls ! i) = Inr x" by simp
    have "?ls ! i \<in> set ?ls" using i(1) new(2) by simp
    then have "10 \<notin> set (?ls ! i)" by (rule split_on_no_sep)
    from second_pass[OF this r x(2)] show ?thesis by (simp add: rewrite_line_def)
  qed
  obtain new2 where new2: "fix_lines ?ls2 [] = Inr ([] @ new2)" "length new2 = length ?ls2"
    "\<forall>i<length ?ls2. rewrite_line (?ls2 ! i) = Inr (new2 ! i)"
    using fix_lines_acc[of ?ls2 "[]"] by blast
  have "new2 = ?ls2"
  proof (rule nth_equalityI[OF new2(2)])
    fix i assume i: "i < length new2"
    with new2(2) have "?ls2 ! i \<in> set ?ls2" by simp
    from fixed[OF this] new2(3) i new2(2) show "new2 ! i = ?ls2 ! i" by simp
  qed
  with new2(1) have "fix_content ?c' = Inr (join [10] ?ls2)" by (simp add: fix_content_def)
  then have "fix_content ?c' = Inr ?c'" by (simp only: join_split_on)
  with c' show "\<exists>c'. fix_content c = Inr c' \<and> fix_content c' = Inr c'" by blast
next
  show "10 \<notin> set line \<longrightarrow> rewrite_line line = Inr out \<longrightarrow>
        (\<forall>l\<in>set (split_on 10 out). match_line l = None \<and> rewrite_line l = Inr l)"
  proof (intro impI ballI)
    fix l assume a: "10 \<notin> set line" "rewrite_line line = Inr out" "l \<in> set (split_on 10 out)"
    from second_pass[OF a] show "match_line l = None \<and> rewrite_line l = Inr l"
      by (simp add: rewrite_line_def)
  qed
qed

text \<open>The three lines the call \<^verbatim>\<open>d.logger.Error("failed", "err", err)\<close> is rewritten to.\<close>

theorem second_run_unchanged_witness:
  \<open>10 \<notin> set (9 # py ''d.logger.Error("failed", "err", err)'')
   \<and> rewrite_line (9 # py ''d.logger.Error("failed", "err", err)'')
       = Inr (9 # py ''d.logger.Error(ctx, "failed",'' @ [10, 9, 9]
              @ py ''logging.Field{Key: "err", Value: err},'' @ [10, 9] @ py '')'')
   \<and> match_line (9 # py ''d.logger.Error(ctx, "failed",'') = None
   \<and> rewrite_line (9 # py ''d.logger.Error(ctx, "failed",'')
       = Inr (9 # py ''d.logger.Error(ctx, "failed",'')
   \<and> match_line ([9, 9] @ py ''logging.Field{Key: "err", Value: err},'') = None
   \<and> rewrite_line ([9, 9] @ py ''logging.Field{Key: "err", Value: err},'')
       = Inr ([9, 9] @ py ''logging.Field{Key: "err", Value: err},'')
   \<and> match_line (9 # py '')'') = None
   \<and> rewrite_line (9 # py '')'') = Inr (9 # py '')'')\<close>
proof -
  have h1: \<open>10 \<notin> set (9 # py ''d.logger.Error("failed", "err", err)'')\<close> by simp
  have h2: \<open>rewrite_line (9 # py ''d.logger.Error("failed", "err", err)'')
       = Inr (9 # py ''d.logger.Error(ctx, "failed",'' @ [10, 9, 9]
              @ py ''logging.Field{Key: "err", Value: err},'' @ [10, 9] @ py '')'')\<close>
    by (simp add: eval_defs)
  have h3: \<open>split_on 10 (9 # py ''d.logger.Error(ctx, "failed",'' @ [10, 9, 9]
              @ py ''logging.Field{Key: "err", Value: err},'' @ [10, 9] @ py '')'')
     = [9 # py ''d.logger.Error(ctx, "failed",'',
                 [9, 9] @ py ''logging.Field{Key: "err", Value: err},'',
                 9 # py '')'']\<close>
    by simp
  from second_run_unchanged[of "[]" \<open>9 # py ''d.logger.Error("failed", "err", err)''\<close>
      \<open>9 # py ''d.logger.Error(ctx, "failed",'' @ [10, 9, 9]
              @ py ''logging.Field{Key: "err", Value: err},'' @ [10, 9] @ py '')''\<close>] h1 h2
  have \<open>\<forall>l\<in>set (split_on 10 (9 # py ''d.logger.Error(ctx, "failed",'' @ [10, 9, 9]
              @ py ''logging.Field{Key: "err", Value: err},'' @ [10, 9] @ py '')'')).
         match_line l = None \<and> rewrite_line l = Inr l\<close>
    by blast
  then have \<open>\<forall>l\<in>set [9 # py ''d.logger.Error(ctx, "failed",'',
                 [9, 9] @ py ''logging.Field{Key: "err", Value: err},'',
                 9 # py '')'']. match_line l = None \<and> rewrite_line l = Inr l\<close>
    unfolding h3 .
  then have \<open>(match_line (9 # py ''d.logger.Error(ctx, "failed",'') = None
   \<and> rewrite_line (9 # py ''d.logger.Error(ctx, "failed",'')
       = Inr (9 # py ''d.logger.Error(ctx, "failed",''))
   \<and> (match_line ([9, 9] @ py ''logging.Field{Key: "err", Value: err},'') = None
   \<and> rewrite_line ([9, 9] @ py ''logging.Field{Key: "err", Value: err},'')
       = Inr ([9, 9] @ py ''logging.Field{Key: "err", Value: err},''))
   \<and> (match_line (9 # py '')'') = None
   \<and> rewrite_line (9 # py '')'') = Inr (9 # py '')''))\<close>
    by (simp only: list.set ball_simps bex_simps ball_Un insert_iff HOL.simp_thms)
  with h1 h2 show ?thesis by blast
qed

text \<open>
  C7, as amended. The receiver of a matched call is the literal \<^verbatim>\<open>d\<close>. A matched call
  with no trailing arguments is the line \<^verbatim>\<open><indent>d.logger.<Level>("<message>")\<close>, and
  it is rewritten to the one line \<^verbatim>\<open><indent>d.logger.<Level>(ctx, "<message>")\<close>:
  \<^verbatim>\<open>ctx\<close> is the first argument, the message and the indentation are those of the
  input. Every line of that shape, for any indentation, level and message without a double
  quote, is matched and rewritten so.
\<close>

theorem call_without_arguments:
  \<open>(match_line line = Some m \<longrightarrow> raw_args m = None \<longrightarrow>
       rewrite_line line
         = Inr (indent m @ py ''d.logger.'' @ level m @ py ''(ctx, "'' @ message m @ py ''")'')
     \<and> indent m = takeWhile isspace line
     \<and> (line = indent m @ py ''d.logger.'' @ level m @ py ''("'' @ message m @ py ''")''
        \<or> line = indent m @ py ''d.logger.'' @ level m @ py ''("'' @ message m @ py ''")'' @ [10]))
   \<and> ((\<forall>c\<in>set ws. isspace c) \<longrightarrow> lvl \<in> set level_names \<longrightarrow> msg \<noteq> [] \<longrightarrow> 34 \<notin> set msg \<longrightarrow>
       rewrite_line (ws @ py ''d.logger.'' @ lvl @ py ''("'' @ msg @ py ''")'')
         = Inr (ws @ py ''d.logger.'' @ lvl @ py ''(ctx, "'' @ msg @ py ''")''))\<close>
proof (intro conjI impI)
  assume m: "match_line line = Some m" and n: "raw_args m = None"
  from n show \<open>rewrite_line line
         = Inr (indent m @ py ''d.logger.'' @ level m @ py ''(ctx, "'' @ message m @ py ''")'')\<close>
    by (simp add: rewrite_line_def m convert_log_call_def new_call_def)
  from match_line_sound[OF m] n obtain rest where s:
    "indent m = takeWhile isspace line"
    \<open>dropWhile isspace line = py ''d.logger.'' @ level m @ py ''("'' @ message m @ 34 # rest\<close>
    "rest = [41] \<or> rest = [41, 10]"
    by auto
  show "indent m = takeWhile isspace line" by (rule s(1))
  have "line = takeWhile isspace line @ dropWhile isspace line" by simp
  then have \<open>line = indent m @ py ''d.logger.'' @ level m @ py ''("'' @ message m @ 34 # rest\<close>
    by (simp only: s(1)[symmetric] s(2))
  with s(3) show \<open>line = indent m @ py ''d.logger.'' @ level m @ py ''("'' @ message m @ py ''")''
        \<or> line = indent m @ py ''d.logger.'' @ level m @ py ''("'' @ message m @ py ''")'' @ [10]\<close>
    by auto
next
  assume a: "\<forall>c\<in>set ws. isspace c" "lvl \<in> set level_names" "msg \<noteq> []" "34 \<notin> set msg"
  show \<open>rewrite_line (ws @ py ''d.logger.'' @ lvl @ py ''("'' @ msg @ py ''")'')
         = Inr (ws @ py ''d.logger.'' @ lvl @ py ''(ctx, "'' @ msg @ py ''")'')\<close>
    unfolding rewrite_line_def match_line_no_args[OF a]
    by (simp add: convert_log_call_def new_call_def)
qed

text \<open>The call \<^verbatim>\<open>d.logger.Info("message")\<close> behind two spaces.\<close>

theorem call_without_arguments_witness:
  \<open>match_line (py ''  d.logger.Info("message")'')
     = Some \<lparr>indent = py ''  '', level = py ''Info'', message = py ''message'', raw_args = None\<rparr>
   \<and> py ''Info'' \<in> set level_names \<and> py ''message'' \<noteq> [] \<and> 34 \<notin> set (py ''message'')
   \<and> rewrite_line (py ''  d.logger.Info("message")'') = Inr (py ''  d.logger.Info(ctx, "message")'')\<close>
proof -
  have h1: \<open>match_line (py ''  d.logger.Info("message")'')
     = Some \<lparr>indent = py ''  '', level = py ''Info'', message = py ''message'', raw_args = None\<rparr>\<close>
    by (simp add: eval_defs)
  have h2: \<open>\<forall>c\<in>set (py ''  ''). isspace c\<close> by (simp add: isspace_def)
  have h3: \<open>py ''Info'' \<in> set level_names\<close> by (simp add: level_names_def)
  have h4: \<open>py ''message'' \<noteq> []\<close> \<open>34 \<notin> set (py ''message'')\<close> by simp_all
  from call_without_arguments[of \<open>py ''  d.logger.Info("message")''\<close>
      \<open>\<lparr>indent = py ''  '', level = py ''Info'', message = py ''message'', raw_args = None\<rparr>\<close>
      \<open>py ''  ''\<close> \<open>py ''Info''\<close> \<open>py ''message''\<close>] h1 h2 h3 h4
  show ?thesis by simp
qed

text \<open>
  C7 as stated fails on its own example: a call on the receiver \<^verbatim>\<open>object\<close> is not
  matched, and the line is returned as it is, without \<^verbatim>\<open>ctx\<close>.
\<close>

theorem call_without_arguments_counterexample:
  \<open>re_match pattern (py ''  object.logger.Info("message")'') = None
   \<and> rewrite_line (py ''  object.logger.Info("message")'') = Inr (py ''  object.logger.Info("message")'')
   \<and> rewrite_line (py ''  object.logger.Info("message")'')
       \<noteq> Inr (py ''  object.logger.Info(ctx, "message")'')\<close>
  by (simp add: eval_defs)

text \<open>
  C2, as amended. A matched call whose raw arguments split into one key and one value is
  rewritten to three lines: the opening line \<^verbatim>\<open><indent>d.logger.<Level>(ctx, "<message>",\<close>,
  the field line \<^verbatim>\<open>logging.Field{Key: "<key>", Value: <value>},\<close> behind the indentation
  and one tab, and the closing line \<^verbatim>\<open><indent>)\<close>.
\<close>

theorem one_pair_call:
  assumes "match_line line = Some m" "raw_args m = Some a" "split_args a = [k, v]"
  shows \<open>rewrite_line line
     = Inr (indent m @ py ''d.logger.'' @ level m @ py ''(ctx, "'' @ message m @ py ''",'' @ [10]
            @ indent m @ [9] @ py ''logging.Field{Key: "'' @ strip_chars [39] (strip_chars [34] k)
              @ py ''", Value: '' @ v @ py ''},'' @ [10]
            @ indent m @ py '')'')
     \<and> indent m = takeWhile isspace line
     \<and> (10 \<notin> set line \<longrightarrow>
          split_on 10 (indent m @ py ''d.logger.'' @ level m @ py ''(ctx, "'' @ message m @ py ''",''
            @ [10] @ indent m @ [9] @ py ''logging.Field{Key: "''
            @ strip_chars [39] (strip_chars [34] k) @ py ''", Value: '' @ v @ py ''},'' @ [10]
            @ indent m @ py '')'')
          = [indent m @ py ''d.logger.'' @ level m @ py ''(ctx, "'' @ message m @ py ''",'',
             indent m @ [9] @ py ''logging.Field{Key: "'' @ strip_chars [39] (strip_chars [34] k)
               @ py ''", Value: '' @ v @ py ''},'',
             indent m @ py '')''])\<close>
proof (intro conjI impI)
  from match_line_parts[OF assms(1)] assms(2) have p:
    "level m \<in> set level_names" "set (indent m) \<subseteq> set line" "set (message m) \<subseteq> set line"
    "a \<noteq> []" "set a \<subseteq> set line"
    by blast+
  have bf: "build_fields [k, v] 0 [] = Inr [make_field (strip_chars [39] (strip_chars [34] k)) v]"
    by (simp add: build_fields.simps py_index_def)
  show r: \<open>rewrite_line line
     = Inr (indent m @ py ''d.logger.'' @ level m @ py ''(ctx, "'' @ message m @ py ''",'' @ [10]
            @ indent m @ [9] @ py ''logging.Field{Key: "'' @ strip_chars [39] (strip_chars [34] k)
              @ py ''", Value: '' @ v @ py ''},'' @ [10]
            @ indent m @ py '')'')\<close>
    using assms p(4) bf
    by (simp add: rewrite_line_def convert_log_call_def new_call_def make_field_def)
  from match_line_sound[OF assms(1)] show "indent m = takeWhile isspace line" by blast
  assume nl: "10 \<notin> set line"
  let ?key = "strip_chars [39] (strip_chars [34] k)"
  have "k \<in> set (split_args a)" "v \<in> set (split_args a)" using assms(3) by simp_all
  from split_args_chars[OF this(1)] split_args_chars[OF this(2)] p(5) nl
  have kv: "10 \<notin> set k" "10 \<notin> set v" by blast+
  have "set ?key \<subseteq> set k"
    using set_strip_by[of "\<lambda>c. c \<in> set [39]" "strip_chars [34] k"]
      set_strip_by[of "\<lambda>c. c \<in> set [34]" k]
    unfolding strip_chars_def by blast
  with kv(1) have key: "10 \<notin> set ?key" by blast
  from p(1-3) nl level_names_chars have c: "10 \<notin> set (indent m)" "10 \<notin> set (message m)"
    "10 \<notin> set (level m)" by blast+
  let ?l1 = \<open>indent m @ py ''d.logger.'' @ level m @ py ''(ctx, "'' @ message m @ py ''",''\<close>
  let ?l2 = \<open>indent m @ [9] @ py ''logging.Field{Key: "'' @ ?key @ py ''", Value: '' @ v @ py ''},''\<close>
  let ?l3 = \<open>indent m @ py '')''\<close>
  have f: "10 \<notin> set ?l1" "10 \<notin> set ?l2" "10 \<notin> set ?l3" using c kv(2) key by simp_all
  have i: "split_on 10 ?l1 = [?l1]" "split_on 10 ?l2 = [?l2]" "split_on 10 ?l3 = [?l3]"
    by (rule split_on_id[OF f(1)], rule split_on_id[OF f(2)], rule split_on_id[OF f(3)])
  have "split_on 10 (?l1 @ 10 # (?l2 @ 10 # ?l3))
      = split_on 10 ?l1 @ split_on 10 (?l2 @ 10 # ?l3)"
    by (rule split_on_append)
  also have "split_on 10 (?l2 @ 10 # ?l3) = split_on 10 ?l2 @ split_on 10 ?l3"
    by (rule split_on_append)
  finally have "split_on 10 (?l1 @ 10 # (?l2 @ 10 # ?l3)) = [?l1] @ [?l2] @ [?l3]"
    by (simp only: i)
  then show \<open>split_on 10 (indent m @ py ''d.logger.'' @ level m @ py ''(ctx, "'' @ message m @ py ''",''
            @ [10] @ indent m @ [9] @ py ''logging.Field{Key: "''
            @ strip_chars [39] (strip_chars [34] k) @ py ''", Value: '' @ v @ py ''},'' @ [10]
            @ indent m @ py '')'')
          = [indent m @ py ''d.logger.'' @ level m @ py ''(ctx, "'' @ message m @ py ''",'',
             indent m @ [9] @ py ''logging.Field{Key: "'' @ strip_chars [39] (strip_chars [34] k)
               @ py ''", Value: '' @ v @ py ''},'',
             indent m @ py '')'']\<close>
    by simp
qed

text \<open>The call \<^verbatim>\<open>d.logger.Error("failed", "err", err)\<close> behind a tab.\<close>

theorem one_pair_call_witness:
  \<open>match_line (9 # py ''d.logger.Error("failed", "err", err)'')
     = Some \<lparr>indent = [9], level = py ''Error'', message = py ''failed'',
              raw_args = Some (py ''"err", err'')\<rparr>
   \<and> split_args (py ''"err", err'') = [py ''"err"'', py ''err'']
   \<and> 10 \<notin> set (9 # py ''d.logger.Error("failed", "err", err)'')
   \<and> rewrite_line (9 # py ''d.logger.Error("failed", "err", err)'')
       = Inr (9 # py ''d.logger.Error(ctx, "failed",'' @ [10, 9, 9]
              @ py ''logging.Field{Key: "err", Value: err},'' @ [10, 9] @ py '')'')
   \<and> split_on 10 (9 # py ''d.logger.Error(ctx, "failed",'' @ [10, 9, 9]
              @ py ''logging.Field{Key: "err", Value: err},'' @ [10, 9] @ py '')'')
       = [9 # py ''d.logger.Error(ctx, "failed",'',
          [9, 9] @ py ''logging.Field{Key: "err", Value: err},'',
          9 # py '')'']\<close>
proof -
  have h1: \<open>match_line (9 # py ''d.logger.Error("failed", "err", err)'')
     = Some \<lparr>indent = [9], level = py ''Error'', message = py ''failed'',
              raw_args = Some (py ''"err", err'')\<rparr>\<close>
    by (simp add: eval_defs)
  have h2: \<open>raw_args \<lparr>indent = [9], level = py ''Error'', message = py ''failed'',
              raw_args = Some (py ''"err", err'')\<rparr> = Some (py ''"err", err'')\<close> by simp
  have h3: \<open>split_args (py ''"err", err'') = [py ''"err"'', py ''err'']\<close>
    by (simp add: eval_defs)
  have h4: \<open>10 \<notin> set (9 # py ''d.logger.Error("failed", "err", err)'')\<close> by simp
  note t = one_pair_call[OF h1 h2 h3]
  have r: \<open>rewrite_line (9 # py ''d.logger.Error("failed", "err", err)'')
       = Inr (9 # py ''d.logger.Error(ctx, "failed",'' @ [10, 9, 9]
              @ py ''logging.Field{Key: "err", Value: err},'' @ [10, 9] @ py '')'')\<close>
    using t[THEN conjunct1] by (simp add: strip_chars_def strip_by_def)
  have s: \<open>split_on 10 (9 # py ''d.logger.Error(ctx, "failed",'' @ [10, 9, 9]
              @ py ''logging.Field{Key: "err", Value: err},'' @ [10, 9] @ py '')'')
       = [9 # py ''d.logger.Error(ctx, "failed",'',
          [9, 9] @ py ''logging.Field{Key: "err", Value: err},'',
          9 # py '')'']\<close>
    using t[THEN conjunct2, THEN conjunct2, rule_format, OF h4]
    by (simp add: strip_chars_def strip_by_def)
  from h1 h3 h4 r s show ?thesis by (intro conjI)
qed

text \<open>
  C2 as stated fails: the field line is written with the package name, it is not
  \<^verbatim>\<open>Field{Key: "err", Value: err},\<close>.
\<close>

theorem one_pair_call_counterexample:
  \<open>rewrite_line (9 # py ''d.logger.Error("failed", "err", err)'')
     \<noteq> Inr (9 # py ''d.logger.Error(ctx, "failed",'' @ [10, 9, 9]
            @ py ''Field{Key: "err", Value: err},'' @ [10, 9] @ py '')'')\<close>
  by (simp add: eval_defs)

end
